theory Spec2Isabelle
  imports Main "HOL-Library.Word"
begin

section \<open>JavaScript strings\<close>

text \<open>
  A JavaScript string is a sequence of UTF-16 code units. The literals of
  \<^verbatim>\<open>query-builder.ts\<close> are ASCII, so they are written as HOL strings and
  converted with \<open>lit\<close>.
\<close>

type_synonym code_unit = "16 word"
type_synonym jsstring = "code_unit list"

definition cu :: "char \<Rightarrow> code_unit" where
  "cu c = of_nat (of_char c)"

definition lit :: "string \<Rightarrow> jsstring" where
  "lit s = map cu s"

definition squote :: code_unit where
  "squote = 0x27"

definition backslash :: code_unit where
  "backslash = 0x5C"

text \<open>
  The code units that \<^verbatim>\<open>String.prototype.trim\<close> removes and that \<^verbatim>\<open>\s\<close>
  matches: ECMAScript WhiteSpace and LineTerminator.
\<close>

definition is_space :: "code_unit \<Rightarrow> bool" where
  "is_space c = (c \<in> set [0x09, 0x0A, 0x0B, 0x0C, 0x0D, 0x20, 0xA0, 0x1680,
       0x2000, 0x2001, 0x2002, 0x2003, 0x2004, 0x2005, 0x2006, 0x2007, 0x2008,
       0x2009, 0x200A, 0x2028, 0x2029, 0x202F, 0x205F, 0x3000, 0xFEFF])"

definition trim :: "jsstring \<Rightarrow> jsstring" where
  "trim s = rev (dropWhile is_space (rev (dropWhile is_space s)))"

fun join :: "jsstring \<Rightarrow> jsstring list \<Rightarrow> jsstring" where
  "join sep [] = []"
| "join sep [x] = x"
| "join sep (x # y # ys) = x @ sep @ join sep (y # ys)"

section \<open>The query AST (drive-query-schema)\<close>

text \<open>
  The types \<^verbatim>\<open>FieldOperator\<close>, \<^verbatim>\<open>DriveQueryObject\<close> and \<^verbatim>\<open>DriveQuery\<close>. Every key is
  optional: \<open>None\<close> is an absent key, \<open>Some v\<close> a key with the value \<open>v\<close> of its declared type
  (the types are checked with \<^verbatim>\<open>exactOptionalPropertyTypes\<close>, so no present key holds
  \<^verbatim>\<open>undefined\<close>). An array and an object are truthy also when empty, so \<^verbatim>\<open>if (n.$and)\<close>,
  \<^verbatim>\<open>if (op.$any)\<close> and \<^verbatim>\<open>if (n.modifiedTime)\<close> test the presence of the key.
\<close>

record FieldOperator =
  dollar_any :: "jsstring list option"
  dollar_all :: "jsstring list option"
  dollar_none :: "jsstring list option"

datatype field_value = FString jsstring | FOperator FieldOperator

record DateRange =
  dollar_gte :: "jsstring option"
  dollar_lt :: "jsstring option"

datatype DriveQueryObject = DriveQueryObject
  (dollar_and: "DriveQueryObject list option")
  (dollar_or: "DriveQueryObject list option")
  (dollar_not: "DriveQueryObject option")
  (name: "field_value option")
  (mimeType: "field_value option")
  (fullText: "field_value option")
  (parentId: "field_value option")
  (starred: "bool option")
  (sharedWithMe: "bool option")
  (trashed: "bool option")
  (modifiedTime: "DateRange option")
  (owner: "field_value option")
  (rawDriveQuery: "jsstring option")

datatype DriveQuery = QString jsstring | QObject DriveQueryObject

record FiltersObject =
  filters_nameIncludes :: "jsstring list option"
  filters_mimeTypeIncludes :: "jsstring list option"
  filters_fullTextIncludes :: "jsstring list option"
  filters_parentIdIncludes :: "jsstring list option"
  filters_ownerIncludes :: "jsstring list option"
  filters_starred :: "bool option"
  filters_sharedWithMe :: "bool option"
  filters_trashed :: "bool option"

text \<open>The two \<^verbatim>\<open>throw new Error\<close> of the builder, with the value each message prints.\<close>

datatype error = UnknownFieldOperator FieldOperator | UnknownNode DriveQueryObject

section \<open>The local state of one call of toDriveQuery\<close>

record locals =
  nameIncludes :: "jsstring list"
  mimeTypeIncludes :: "jsstring list"
  fullTextIncludes :: "jsstring list"
  parentIdIncludes :: "jsstring list"
  ownerIncludes :: "jsstring list"
  starredFlag :: "bool option"
  sharedWithMeFlag :: "bool option"
  trashedFlag :: "bool option"

definition init_locals :: locals where
  "init_locals = \<lparr>nameIncludes = [], mimeTypeIncludes = [], fullTextIncludes = [],
     parentIdIncludes = [], ownerIncludes = [], starredFlag = None,
     sharedWithMeFlag = None, trashedFlag = None\<rparr>"

section \<open>The helpers of toDriveQuery\<close>

definition p :: "jsstring \<Rightarrow> jsstring" where
  "p s = lit ''('' @ s @ lit '')''"

definition quote :: "jsstring \<Rightarrow> jsstring" where
  "quote str = [squote] @ concat (map (\<lambda>c. if c = squote then [backslash, squote] else [c]) str)
                 @ [squote]"

definition fv :: "jsstring \<Rightarrow> jsstring \<Rightarrow> locals \<Rightarrow> jsstring \<times> locals" where
  "fv field rawVal st =
     (let v = quote rawVal in
      if field = lit ''name'' then
        (lit ''name contains '' @ v, st\<lparr>nameIncludes := nameIncludes st @ [rawVal]\<rparr>)
      else if field = lit ''mimeType'' then
        (lit ''mimeType = '' @ v, st\<lparr>mimeTypeIncludes := mimeTypeIncludes st @ [rawVal]\<rparr>)
      else if field = lit ''fullText'' then
        (lit ''fullText contains '' @ v, st\<lparr>fullTextIncludes := fullTextIncludes st @ [rawVal]\<rparr>)
      else if field = lit ''parentId'' then
        (v @ lit '' in parents'', st\<lparr>parentIdIncludes := parentIdIncludes st @ [rawVal]\<rparr>)
      else if field = lit ''owner'' then
        (v @ lit '' in owners'', st\<lparr>ownerIncludes := ownerIncludes st @ [rawVal]\<rparr>)
      else ([], st))"

datatype logic_op = OpAnd | OpOr

fun op_str :: "logic_op \<Rightarrow> jsstring" where
  "op_str OpAnd = lit ''and''"
| "op_str OpOr = lit ''or''"

definition chain :: "logic_op \<Rightarrow> jsstring list \<Rightarrow> jsstring" where
  "chain op arr =
     (let filtered = filter (\<lambda>s. s \<noteq> [] \<and> trim s \<noteq> []) arr in
      case filtered of
        [] \<Rightarrow> []
      | [first] \<Rightarrow> first
      | _ \<Rightarrow> p (join (lit '' '' @ op_str op @ lit '' '') filtered))"

text \<open>\<^verbatim>\<open>nonEmpty.map((v) => fv(field, v))\<close>, left to right, each call pushing on the lists.\<close>

fun fv_map :: "jsstring \<Rightarrow> jsstring list \<Rightarrow> locals \<Rightarrow> jsstring list \<times> locals" where
  "fv_map field [] st = ([], st)"
| "fv_map field (v # vs) st =
     (let (r, st1) = fv field v st;
          (rs, st2) = fv_map field vs st1
      in (r # rs, st2))"

definition field_results :: "jsstring \<Rightarrow> jsstring list \<Rightarrow> locals \<Rightarrow> jsstring list \<times> locals" where
  "field_results field vs st =
     (let nonEmpty = filter (\<lambda>v. trim v \<noteq> []) vs;
          (mapped, st') = fv_map field nonEmpty st
      in (filter (\<lambda>result. trim result \<noteq> []) mapped, st'))"

definition fieldExpr :: "jsstring \<Rightarrow> FieldOperator \<Rightarrow> locals \<Rightarrow> error + (jsstring \<times> locals)" where
  "fieldExpr field op st =
     (case dollar_any op of
        Some vs \<Rightarrow>
          (let (results, st') = field_results field vs st
           in Inr (if length results > 0 then chain OpOr results else [], st'))
      | None \<Rightarrow>
     (case dollar_all op of
        Some vs \<Rightarrow>
          (let (results, st') = field_results field vs st
           in Inr (if length results > 0 then chain OpAnd results else [], st'))
      | None \<Rightarrow>
     (case dollar_none op of
        Some vs \<Rightarrow>
          (let (results, st') = field_results field vs st
           in Inr (if length results > 0 then lit ''not '' @ p (chain OpOr results) else [], st'))
      | None \<Rightarrow> Inl (UnknownFieldOperator op))))"

text \<open>\<^verbatim>\<open>if (d.$gte)\<close> and \<^verbatim>\<open>if (d.$lt)\<close> hold for a string that is present and not empty.\<close>

definition dateExpr :: "DateRange \<Rightarrow> jsstring" where
  "dateExpr d =
     (let parts1 = (case dollar_gte d of
                      Some g \<Rightarrow> if g \<noteq> [] then [lit ''modifiedTime >= '' @ [squote] @ g @ [squote]]
                                else []
                    | None \<Rightarrow> []);
          parts = (case dollar_lt d of
                     Some l \<Rightarrow> if l \<noteq> [] then parts1 @ [lit ''modifiedTime < '' @ [squote] @ l @ [squote]]
                               else parts1
                   | None \<Rightarrow> parts1)
      in if length parts > 1 then p (join (lit '' and '') parts)
         else (case parts of [] \<Rightarrow> [] | x # _ \<Rightarrow> x))"

definition fieldKeys :: "jsstring list" where
  "fieldKeys = [lit ''name'', lit ''mimeType'', lit ''fullText'', lit ''parentId'', lit ''owner'']"

text \<open>\<^verbatim>\<open>k in n\<close> and \<^verbatim>\<open>n[k]\<close> for the keys of \<open>fieldKeys\<close>.\<close>

definition get_field :: "DriveQueryObject \<Rightarrow> jsstring \<Rightarrow> field_value option" where
  "get_field n k =
     (if k = lit ''name'' then name n
      else if k = lit ''mimeType'' then mimeType n
      else if k = lit ''fullText'' then fullText n
      else if k = lit ''parentId'' then parentId n
      else if k = lit ''owner'' then owner n
      else None)"

text \<open>\<^verbatim>\<open>Object.keys(n).length === 0\<close>\<close>

definition keys_empty :: "DriveQueryObject \<Rightarrow> bool" where
  "keys_empty n =
     (dollar_and n = None \<and> dollar_or n = None \<and> dollar_not n = None \<and> name n = None \<and>
      mimeType n = None \<and> fullText n = None \<and> parentId n = None \<and> starred n = None \<and>
      sharedWithMe n = None \<and> trashed n = None \<and> modifiedTime n = None \<and> owner n = None \<and>
      rawDriveQuery n = None)"

definition bool_str :: "bool \<Rightarrow> jsstring" where
  "bool_str b = (if b then lit ''true'' else lit ''false'')"

definition normalize :: "field_value \<Rightarrow> FieldOperator" where
  "normalize op = (case op of
       FString s \<Rightarrow> \<lparr>dollar_any = Some [s], dollar_all = None, dollar_none = None\<rparr>
     | FOperator fo \<Rightarrow> fo)"

text \<open>The loop \<^verbatim>\<open>for (const k of fieldKeys())\<close> of \<open>emit\<close>.\<close>

fun emit_fields ::
  "DriveQueryObject \<Rightarrow> jsstring list \<Rightarrow> jsstring list \<Rightarrow> locals \<Rightarrow> error + (jsstring list \<times> locals)"
where
  "emit_fields n [] expressions st = Inr (expressions, st)"
| "emit_fields n (k # ks) expressions st =
     (case get_field n k of
        None \<Rightarrow> emit_fields n ks expressions st
      | Some op \<Rightarrow>
          (case fieldExpr k (normalize op) st of
             Inl e \<Rightarrow> Inl e
           | Inr (result, st') \<Rightarrow>
               emit_fields n ks
                 (if trim result \<noteq> [] then expressions @ [result] else expressions) st'))"

text \<open>The body of \<open>emit\<close> below its three combinator returns.\<close>

definition emit_leaf :: "DriveQueryObject \<Rightarrow> locals \<Rightarrow> error + (jsstring \<times> locals)" where
  "emit_leaf n st =
     (let (e1, st1) = (case starred n of
                         Some b \<Rightarrow> ([lit ''starred = '' @ bool_str b], st\<lparr>starredFlag := Some b\<rparr>)
                       | None \<Rightarrow> ([], st));
          (e2, st2) = (case sharedWithMe n of
                         Some b \<Rightarrow> (e1 @ [lit ''sharedWithMe = '' @ bool_str b],
                                    st1\<lparr>sharedWithMeFlag := Some b\<rparr>)
                       | None \<Rightarrow> (e1, st1));
          (e3, st3) = (case trashed n of
                         Some b \<Rightarrow> (e2 @ [lit ''trashed = '' @ bool_str b],
                                    st2\<lparr>trashedFlag := Some b\<rparr>)
                       | None \<Rightarrow> (e2, st2));
          e4 = (case modifiedTime n of Some d \<Rightarrow> e3 @ [dateExpr d] | None \<Rightarrow> e3)
      in case emit_fields n fieldKeys e4 st3 of
           Inl e \<Rightarrow> Inl e
         | Inr (expressions, st4) \<Rightarrow>
             if length expressions = 0 \<and> keys_empty n then Inr ([], st4)
             else if length expressions > 1 then Inr (chain OpAnd expressions, st4)
             else if length expressions = 1 then Inr (hd expressions, st4)
             else Inl (UnknownNode n))"

fun emit :: "DriveQueryObject \<Rightarrow> locals \<Rightarrow> error + (jsstring \<times> locals)"
and emit_list :: "DriveQueryObject list \<Rightarrow> locals \<Rightarrow> error + (jsstring list \<times> locals)"
where
  "emit (DriveQueryObject a b c nm mt ft pid sr sw tr mo ow raw) st =
     (case a of
        Some xs \<Rightarrow>
          (case emit_list xs st of
             Inl e \<Rightarrow> Inl e
           | Inr (ss, st') \<Rightarrow> Inr (p (join (lit '' and '') ss), st'))
      | None \<Rightarrow>
     (case b of
        Some xs \<Rightarrow>
          (case emit_list xs st of
             Inl e \<Rightarrow> Inl e
           | Inr (ss, st') \<Rightarrow> Inr (p (join (lit '' or '') ss), st'))
      | None \<Rightarrow>
     (case c of
        Some x \<Rightarrow>
          (case emit x st of
             Inl e \<Rightarrow> Inl e
           | Inr (s, st') \<Rightarrow> Inr (lit ''not '' @ s, st'))
      | None \<Rightarrow> emit_leaf (DriveQueryObject a b c nm mt ft pid sr sw tr mo ow raw) st)))"
| "emit_list [] st = Inr ([], st)"
| "emit_list (x # xs) st =
     (case emit x st of
        Inl e \<Rightarrow> Inl e
      | Inr (s, st1) \<Rightarrow>
          (case emit_list xs st1 of
             Inl e \<Rightarrow> Inl e
           | Inr (ss, st2) \<Rightarrow> Inr (s # ss, st2)))"

text \<open>
  \<open>emitTop\<close>. Its first test \<^verbatim>\<open>if (!n) return ''\<close> is never taken: an object is truthy.
\<close>

definition emitTop :: "DriveQueryObject \<Rightarrow> locals \<Rightarrow> error + (jsstring \<times> locals)" where
  "emitTop n st =
     (if keys_empty n then Inr ([], st)
      else
     (case dollar_and n of
        Some xs \<Rightarrow>
          (case emit_list xs st of
             Inl e \<Rightarrow> Inl e
           | Inr (ss, st') \<Rightarrow> Inr (join (lit '' and '') ss, st'))
      | None \<Rightarrow>
     (case dollar_or n of
        Some xs \<Rightarrow>
          (case emit_list xs st of
             Inl e \<Rightarrow> Inl e
           | Inr (ss, st') \<Rightarrow> Inr (join (lit '' or '') ss, st'))
      | None \<Rightarrow>
     (case dollar_not n of
        Some x \<Rightarrow>
          (case emit x st of
             Inl e \<Rightarrow> Inl e
           | Inr (s, st') \<Rightarrow> Inr (lit ''not '' @ s, st'))
      | None \<Rightarrow>
          (case emit n st of
             Inl e \<Rightarrow> Inl e
           | Inr (result, st') \<Rightarrow> Inr (if trim result = [] then [] else result, st'))))))"

section \<open>The clean-up of the compiled string\<close>

text \<open>
  \<^verbatim>\<open>q.replace(/\s+and\s+$|\s+or\s+$|^\s+and\s+|^\s+or\s+/gi, '').trim()\<close>.
  With the flag \<^verbatim>\<open>i\<close> a letter of the pattern matches its lower and its upper case.
  \<^verbatim>\<open>\s+\<close> is greedy and the next pattern character is no white space, so a match takes
  whole runs of white space. At index 0 the match, if any, is a run of white space, a
  keyword and a run of white space (\<open>strip_leading\<close>); what follows the match starts with
  no white space. A later match is anchored at the end, and the leftmost one starts at the
  beginning of the run of white space before the keyword (\<open>strip_trailing\<close>).
\<close>

fun ci_prefix :: "(code_unit \<times> code_unit) list \<Rightarrow> jsstring \<Rightarrow> jsstring option" where
  "ci_prefix [] s = Some s"
| "ci_prefix ((l, u) # ks) [] = None"
| "ci_prefix ((l, u) # ks) (c # s) = (if c = l \<or> c = u then ci_prefix ks s else None)"

definition kw_and :: "(code_unit \<times> code_unit) list" where
  "kw_and = [(cu CHR ''a'', cu CHR ''A''), (cu CHR ''n'', cu CHR ''N''), (cu CHR ''d'', cu CHR ''D'')]"

definition kw_or :: "(code_unit \<times> code_unit) list" where
  "kw_or = [(cu CHR ''o'', cu CHR ''O''), (cu CHR ''r'', cu CHR ''R'')]"

definition match_kw :: "jsstring \<Rightarrow> jsstring option" where
  "match_kw s = (case ci_prefix kw_and s of Some r \<Rightarrow> Some r | None \<Rightarrow> ci_prefix kw_or s)"

definition match_kw_rev :: "jsstring \<Rightarrow> jsstring option" where
  "match_kw_rev s =
     (case ci_prefix (rev kw_and) s of Some r \<Rightarrow> Some r | None \<Rightarrow> ci_prefix (rev kw_or) s)"

definition strip_leading :: "jsstring \<Rightarrow> jsstring" where
  "strip_leading q =
     (if takeWhile is_space q = [] then q
      else case match_kw (dropWhile is_space q) of
             None \<Rightarrow> q
           | Some r \<Rightarrow> if takeWhile is_space r = [] then q else dropWhile is_space r)"

definition strip_trailing :: "jsstring \<Rightarrow> jsstring" where
  "strip_trailing q =
     (if takeWhile is_space (rev q) = [] then q
      else case match_kw_rev (dropWhile is_space (rev q)) of
             None \<Rightarrow> q
           | Some r \<Rightarrow> if takeWhile is_space r = [] then q else rev (dropWhile is_space r))"

definition cleanedQuery :: "jsstring \<Rightarrow> jsstring" where
  "cleanedQuery q = trim (strip_trailing (strip_leading q))"

section \<open>toDriveQuery\<close>

definition opt_list :: "jsstring list \<Rightarrow> jsstring list option" where
  "opt_list xs = (if length xs \<noteq> 0 then Some xs else None)"

definition mk_filters :: "locals \<Rightarrow> FiltersObject" where
  "mk_filters st =
     \<lparr>filters_nameIncludes = opt_list (nameIncludes st),
      filters_mimeTypeIncludes = opt_list (mimeTypeIncludes st),
      filters_fullTextIncludes = opt_list (fullTextIncludes st),
      filters_parentIdIncludes = opt_list (parentIdIncludes st),
      filters_ownerIncludes = opt_list (ownerIncludes st),
      filters_starred = starredFlag st,
      filters_sharedWithMe = sharedWithMeFlag st,
      filters_trashed = trashedFlag st\<rparr>"

definition no_filters :: FiltersObject where
  "no_filters =
     \<lparr>filters_nameIncludes = None, filters_mimeTypeIncludes = None,
      filters_fullTextIncludes = None, filters_parentIdIncludes = None,
      filters_ownerIncludes = None, filters_starred = None,
      filters_sharedWithMe = None, filters_trashed = None\<rparr>"

definition toDriveQuery :: "DriveQuery \<Rightarrow> error + (jsstring \<times> FiltersObject)" where
  "toDriveQuery query =
     (case query of
        QString s \<Rightarrow> Inr (s, no_filters)
      | QObject n \<Rightarrow>
          (case emitTop n init_locals of
             Inl e \<Rightarrow> Inl e
           | Inr (q, st) \<Rightarrow> Inr (cleanedQuery q, mk_filters st)))"

section \<open>Query objects used in the examples\<close>

definition empty_object :: DriveQueryObject where
  "empty_object = DriveQueryObject None None None None None None None None None None None None None"

definition obj_and :: "DriveQueryObject list \<Rightarrow> DriveQueryObject" where
  "obj_and xs = DriveQueryObject (Some xs) None None None None None None None None None None None None"

definition obj_or :: "DriveQueryObject list \<Rightarrow> DriveQueryObject" where
  "obj_or xs = DriveQueryObject None (Some xs) None None None None None None None None None None None"

definition obj_not :: "DriveQueryObject \<Rightarrow> DriveQueryObject" where
  "obj_not x = DriveQueryObject None None (Some x) None None None None None None None None None None"

definition obj_name :: "field_value \<Rightarrow> DriveQueryObject" where
  "obj_name v = DriveQueryObject None None None (Some v) None None None None None None None None None"

definition obj_starred :: "bool \<Rightarrow> DriveQueryObject" where
  "obj_starred b = DriveQueryObject None None None None None None None (Some b) None None None None None"

definition obj_raw :: "jsstring \<Rightarrow> DriveQueryObject" where
  "obj_raw r = DriveQueryObject None None None None None None None None None None None None (Some r)"

section \<open>Notions used in the statements\<close>

text \<open>The separator and the children of a node whose first combinator is \<^verbatim>\<open>$and\<close> or \<^verbatim>\<open>$or\<close>.\<close>

definition root_sep :: "DriveQueryObject \<Rightarrow> jsstring" where
  "root_sep n = (if dollar_and n \<noteq> None then lit '' and '' else lit '' or '')"

definition root_children :: "DriveQueryObject \<Rightarrow> DriveQueryObject list option" where
  "root_children n = (case dollar_and n of Some xs \<Rightarrow> Some xs | None \<Rightarrow> dollar_or n)"

definition has_combinator :: "DriveQueryObject \<Rightarrow> bool" where
  "has_combinator n = (dollar_and n \<noteq> None \<or> dollar_or n \<noteq> None \<or> dollar_not n \<noteq> None)"

text \<open>The node with every key other than the three combinators removed.\<close>

definition drop_leaves :: "DriveQueryObject \<Rightarrow> DriveQueryObject" where
  "drop_leaves n = DriveQueryObject (dollar_and n) (dollar_or n) (dollar_not n)
     None None None None None None None None None None"

text \<open>The node with its key \<^verbatim>\<open>rawDriveQuery\<close> removed.\<close>

definition without_raw :: "DriveQueryObject \<Rightarrow> DriveQueryObject" where
  "without_raw n = DriveQueryObject (dollar_and n) (dollar_or n) (dollar_not n) (name n) (mimeType n) (fullText n) (parentId n) (starred n) (sharedWithMe n) (trashed n) (modifiedTime n) (owner n) None"

definition any_of :: "jsstring list \<Rightarrow> FieldOperator" where
  "any_of vs = \<lparr>dollar_any = Some vs, dollar_all = None, dollar_none = None\<rparr>"

definition all_of :: "jsstring list \<Rightarrow> FieldOperator" where
  "all_of vs = \<lparr>dollar_any = None, dollar_all = Some vs, dollar_none = None\<rparr>"

definition none_of :: "jsstring list \<Rightarrow> FieldOperator" where
  "none_of vs = \<lparr>dollar_any = None, dollar_all = None, dollar_none = Some vs\<rparr>"

text \<open>The node with the leaf field \<open>k\<close> set to \<open>v\<close>.\<close>

definition set_field :: "jsstring \<Rightarrow> field_value \<Rightarrow> DriveQueryObject \<Rightarrow> DriveQueryObject" where
  "set_field k v n =
     (if k = lit ''name'' then
        DriveQueryObject (dollar_and n) (dollar_or n) (dollar_not n) (Some v) (mimeType n) (fullText n) (parentId n) (starred n) (sharedWithMe n) (trashed n) (modifiedTime n) (owner n) (rawDriveQuery n)
      else if k = lit ''mimeType'' then
        DriveQueryObject (dollar_and n) (dollar_or n) (dollar_not n) (name n) (Some v) (fullText n) (parentId n) (starred n) (sharedWithMe n) (trashed n) (modifiedTime n) (owner n) (rawDriveQuery n)
      else if k = lit ''fullText'' then
        DriveQueryObject (dollar_and n) (dollar_or n) (dollar_not n) (name n) (mimeType n) (Some v) (parentId n) (starred n) (sharedWithMe n) (trashed n) (modifiedTime n) (owner n) (rawDriveQuery n)
      else if k = lit ''parentId'' then
        DriveQueryObject (dollar_and n) (dollar_or n) (dollar_not n) (name n) (mimeType n) (fullText n) (Some v) (starred n) (sharedWithMe n) (trashed n) (modifiedTime n) (owner n) (rawDriveQuery n)
      else if k = lit ''owner'' then
        DriveQueryObject (dollar_and n) (dollar_or n) (dollar_not n) (name n) (mimeType n) (fullText n) (parentId n) (starred n) (sharedWithMe n) (trashed n) (modifiedTime n) (Some v) (rawDriveQuery n)
      else n)"

text \<open>
  The literal values that are compiled into conditions of the field \<open>k\<close>, in the order
  of compilation: the non-blank values of the operator array that \<open>fieldExpr\<close> reads, in
  the nodes that \<open>emit\<close> visits.
\<close>

definition op_values :: "FieldOperator \<Rightarrow> jsstring list" where
  "op_values op = filter (\<lambda>v. trim v \<noteq> [])
     (case dollar_any op of Some vs \<Rightarrow> vs | None \<Rightarrow>
     (case dollar_all op of Some vs \<Rightarrow> vs | None \<Rightarrow>
     (case dollar_none op of Some vs \<Rightarrow> vs | None \<Rightarrow> [])))"

definition leaf_values :: "jsstring \<Rightarrow> DriveQueryObject \<Rightarrow> jsstring list" where
  "leaf_values k n = (case get_field n k of None \<Rightarrow> [] | Some v \<Rightarrow> op_values (normalize v))"

fun compiled_values :: "jsstring \<Rightarrow> DriveQueryObject \<Rightarrow> jsstring list" where
  "compiled_values k (DriveQueryObject a b c nm mt ft pid sr sw tr mo ow raw) =
     (case a of Some xs \<Rightarrow> concat (map (compiled_values k) xs) | None \<Rightarrow>
     (case b of Some xs \<Rightarrow> concat (map (compiled_values k) xs) | None \<Rightarrow>
     (case c of Some x \<Rightarrow> compiled_values k x | None \<Rightarrow>
        leaf_values k (DriveQueryObject a b c nm mt ft pid sr sw tr mo ow raw))))"

text \<open>
  A sufficient condition for compilation to return: every field operator that is read has
  one of its three keys, and every leaf node that is visited is the empty object or yields
  an expression (a flag, a date range, or a field with a non-blank value).
\<close>

definition op_known :: "FieldOperator \<Rightarrow> bool" where
  "op_known op = (dollar_any op \<noteq> None \<or> dollar_all op \<noteq> None \<or> dollar_none op \<noteq> None)"

definition leaf_ok :: "DriveQueryObject \<Rightarrow> bool" where
  "leaf_ok n =
     ((\<forall>k \<in> set fieldKeys. case get_field n k of None \<Rightarrow> True | Some v \<Rightarrow> op_known (normalize v)) \<and>
      (keys_empty n \<or> starred n \<noteq> None \<or> sharedWithMe n \<noteq> None \<or> trashed n \<noteq> None \<or>
       modifiedTime n \<noteq> None \<or> (\<exists>k \<in> set fieldKeys. leaf_values k n \<noteq> [])))"

fun compilable :: "DriveQueryObject \<Rightarrow> bool" where
  "compilable (DriveQueryObject a b c nm mt ft pid sr sw tr mo ow raw) =
     (case a of Some xs \<Rightarrow> (\<forall>x \<in> set xs. compilable x) | None \<Rightarrow>
     (case b of Some xs \<Rightarrow> (\<forall>x \<in> set xs. compilable x) | None \<Rightarrow>
     (case c of Some x \<Rightarrow> compilable x | None \<Rightarrow>
        leaf_ok (DriveQueryObject a b c nm mt ft pid sr sw tr mo ow raw))))"

text \<open>The tree with the key \<^verbatim>\<open>rawDriveQuery\<close> removed from every node.\<close>

fun strip_raw :: "DriveQueryObject \<Rightarrow> DriveQueryObject" where
  "strip_raw (DriveQueryObject a b c nm mt ft pid sr sw tr mo ow raw) =
     DriveQueryObject
       (case a of Some xs \<Rightarrow> Some (map strip_raw xs) | None \<Rightarrow> None)
       (case b of Some xs \<Rightarrow> Some (map strip_raw xs) | None \<Rightarrow> None)
       (case c of Some x \<Rightarrow> Some (strip_raw x) | None \<Rightarrow> None)
       nm mt ft pid sr sw tr mo ow None"

text \<open>No node of the tree has the key \<^verbatim>\<open>rawDriveQuery\<close> as its only key.\<close>

fun raw_has_company :: "DriveQueryObject \<Rightarrow> bool" where
  "raw_has_company (DriveQueryObject a b c nm mt ft pid sr sw tr mo ow raw) =
     ((raw = None \<or> \<not> keys_empty (DriveQueryObject a b c nm mt ft pid sr sw tr mo ow None)) \<and>
      (case a of Some xs \<Rightarrow> (\<forall>x \<in> set xs. raw_has_company x) | None \<Rightarrow> True) \<and>
      (case b of Some xs \<Rightarrow> (\<forall>x \<in> set xs. raw_has_company x) | None \<Rightarrow> True) \<and>
      (case c of Some x \<Rightarrow> raw_has_company x | None \<Rightarrow> True))"

text \<open>
  A leaf node with a field operator that has none of its three keys, or with the key
  \<^verbatim>\<open>rawDriveQuery\<close> alone; and a node in which \<open>emit\<close> visits such a leaf.
\<close>

definition leaf_malformed :: "DriveQueryObject \<Rightarrow> bool" where
  "leaf_malformed n =
     ((\<exists>k \<in> set fieldKeys. case get_field n k of None \<Rightarrow> False | Some v \<Rightarrow> \<not> op_known (normalize v)) \<or>
      (rawDriveQuery n \<noteq> None \<and> keys_empty (without_raw n)))"

fun malformed :: "DriveQueryObject \<Rightarrow> bool" where
  "malformed (DriveQueryObject a b c nm mt ft pid sr sw tr mo ow raw) =
     (case a of Some xs \<Rightarrow> (\<exists>x \<in> set xs. malformed x) | None \<Rightarrow>
     (case b of Some xs \<Rightarrow> (\<exists>x \<in> set xs. malformed x) | None \<Rightarrow>
     (case c of Some x \<Rightarrow> malformed x | None \<Rightarrow>
        leaf_malformed (DriveQueryObject a b c nm mt ft pid sr sw tr mo ow raw))))"

text \<open>The list of the local state that \<open>fv\<close> extends for the field \<open>k\<close>.\<close>

definition includes_of :: "jsstring \<Rightarrow> locals \<Rightarrow> jsstring list" where
  "includes_of k st =
     (if k = lit ''name'' then nameIncludes st
      else if k = lit ''mimeType'' then mimeTypeIncludes st
      else if k = lit ''fullText'' then fullTextIncludes st
      else if k = lit ''parentId'' then parentIdIncludes st
      else if k = lit ''owner'' then ownerIncludes st
      else [])"

text \<open>
  The expressions and the state of \<open>emit\<close> when it enters its loop over the field keys:
  the flags and the date range of the node.
\<close>

definition flag_exprs :: "DriveQueryObject \<Rightarrow> jsstring list" where
  "flag_exprs n =
     (case starred n of Some b \<Rightarrow> [lit ''starred = '' @ bool_str b] | None \<Rightarrow> []) @
     (case sharedWithMe n of Some b \<Rightarrow> [lit ''sharedWithMe = '' @ bool_str b] | None \<Rightarrow> []) @
     (case trashed n of Some b \<Rightarrow> [lit ''trashed = '' @ bool_str b] | None \<Rightarrow> []) @
     (case modifiedTime n of Some d \<Rightarrow> [dateExpr d] | None \<Rightarrow> [])"

definition flag_state :: "DriveQueryObject \<Rightarrow> locals \<Rightarrow> locals" where
  "flag_state n st =
     (case trashed n of Some b \<Rightarrow> (\<lambda>s. s\<lparr>trashedFlag := Some b\<rparr>) | None \<Rightarrow> (\<lambda>s. s))
    ((case sharedWithMe n of Some b \<Rightarrow> (\<lambda>s. s\<lparr>sharedWithMeFlag := Some b\<rparr>) | None \<Rightarrow> (\<lambda>s. s))
    ((case starred n of Some b \<Rightarrow> (\<lambda>s. s\<lparr>starredFlag := Some b\<rparr>) | None \<Rightarrow> (\<lambda>s. s)) st))"

text \<open>
  Two nodes with the same combinators, flags and date range, with the same field operators
  after normalization, and both with or both without keys.
\<close>

definition same_conditions :: "DriveQueryObject \<Rightarrow> DriveQueryObject \<Rightarrow> bool" where
  "same_conditions n n' =
     (dollar_and n = dollar_and n' \<and> dollar_or n = dollar_or n' \<and> dollar_not n = dollar_not n' \<and>
      starred n = starred n' \<and> sharedWithMe n = sharedWithMe n' \<and> trashed n = trashed n' \<and>
      modifiedTime n = modifiedTime n' \<and> keys_empty n = keys_empty n' \<and>
      (\<forall>k \<in> set fieldKeys.
         map_option normalize (get_field n k) = map_option normalize (get_field n' k)))"

section \<open>Evaluation of concrete inputs\<close>

lemmas ev = toDriveQuery_def emitTop_def emit_leaf_def fieldExpr_def field_results_def fv_def
  chain_def p_def quote_def dateExpr_def fieldKeys_def get_field_def keys_empty_def
  bool_str_def normalize_def cleanedQuery_def strip_leading_def strip_trailing_def match_kw_def
  match_kw_rev_def kw_and_def kw_or_def trim_def is_space_def lit_def cu_def squote_def
  backslash_def opt_list_def mk_filters_def no_filters_def init_locals_def
  empty_object_def obj_and_def obj_or_def obj_not_def obj_name_def obj_starred_def obj_raw_def

section \<open>The model on the assertions of the unit tests\<close>

lemma test_empty_object: "toDriveQuery (QObject empty_object) = Inr ([], no_filters)"
  by (simp add: ev)

lemma test_escapes_single_quotes:
  "toDriveQuery (QObject (obj_name (FString (lit ''Alice'' @ [squote] @ lit ''s file'')))) =
     Inr (lit ''name contains '' @ [squote] @ lit ''Alice'' @ [backslash, squote] @ lit ''s file''
            @ [squote],
          no_filters\<lparr>filters_nameIncludes := Some [lit ''Alice'' @ [squote] @ lit ''s file'']\<rparr>)"
  by (simp add: ev)

lemma test_filters_out_empty_strings:
  "toDriveQuery (QObject (obj_name (FOperator (any_of [[], lit ''  '', lit ''valid''])))) =
     Inr (lit ''name contains 'valid'' @ [squote],
          no_filters\<lparr>filters_nameIncludes := Some [lit ''valid'']\<rparr>)"
  by (simp add: any_of_def ev)

lemma test_date_range:
  "toDriveQuery (QObject (DriveQueryObject None None None None None None None None None None
       (Some \<lparr>dollar_gte = Some (lit ''2024-01-01''), dollar_lt = Some (lit ''2024-02-01'')\<rparr>)
       None None)) =
     Inr (lit ''(modifiedTime >= '2024-01-01' and modifiedTime < '2024-02-01'' @ [squote]
            @ lit '')'',
          no_filters)"
  by (simp add: ev)

lemma test_none_operator:
  "toDriveQuery (QObject (obj_name (FOperator (none_of [lit ''draft'', lit ''old''])))) =
     Inr (lit ''not ((name contains 'draft' or name contains 'old'' @ [squote] @ lit ''))'',
          no_filters\<lparr>filters_nameIncludes := Some [lit ''draft'', lit ''old'']\<rparr>)"
  by (simp add: none_of_def ev)

section \<open>Basic facts\<close>

text \<open>\<open>emit\<close> by selectors. Used with \<open>subst\<close>: as a rewrite rule it would loop.\<close>

lemma emit_sel:
  "emit n st =
     (case dollar_and n of
        Some xs \<Rightarrow>
          (case emit_list xs st of
             Inl e \<Rightarrow> Inl e
           | Inr (ss, st') \<Rightarrow> Inr (p (join (lit '' and '') ss), st'))
      | None \<Rightarrow>
     (case dollar_or n of
        Some xs \<Rightarrow>
          (case emit_list xs st of
             Inl e \<Rightarrow> Inl e
           | Inr (ss, st') \<Rightarrow> Inr (p (join (lit '' or '') ss), st'))
      | None \<Rightarrow>
     (case dollar_not n of
        Some x \<Rightarrow>
          (case emit x st of
             Inl e \<Rightarrow> Inl e
           | Inr (s, st') \<Rightarrow> Inr (lit ''not '' @ s, st'))
      | None \<Rightarrow> emit_leaf n st)))"
  by (cases n) (simp split: option.splits)

lemma not_space_paren: "\<not> is_space (cu CHR ''('')" "\<not> is_space (cu CHR '')'')"
  by (simp_all add: is_space_def cu_def)

lemma trim_p: "trim (p s) = p s"
  by (simp add: trim_def p_def lit_def not_space_paren)

lemma strip_leading_p: "strip_leading (p s) = p s"
  by (simp add: strip_leading_def p_def lit_def not_space_paren)

lemma strip_trailing_p: "strip_trailing (p s) = p s"
  by (simp add: strip_trailing_def p_def lit_def not_space_paren)

lemma cleanedQuery_p: "cleanedQuery (p s) = p s"
  by (simp add: cleanedQuery_def strip_leading_p strip_trailing_p trim_p)

lemma length_trim: "length (trim s) \<le> length s"
proof -
  have "length (dropWhile is_space (rev (dropWhile is_space s)))
          \<le> length (rev (dropWhile is_space s))"
    by (rule length_dropWhile_le)
  also have "\<dots> \<le> length s" by (simp add: length_dropWhile_le)
  finally show ?thesis by (simp add: trim_def)
qed

lemma ci_prefix_length: "ci_prefix ks s = Some r \<Longrightarrow> length r \<le> length s"
  by (induction ks s rule: ci_prefix.induct) (auto split: if_splits intro: le_SucI)

lemma match_kw_length: "match_kw s = Some r \<Longrightarrow> length r \<le> length s"
  by (auto simp: match_kw_def split: option.splits dest: ci_prefix_length)

lemma match_kw_rev_length: "match_kw_rev s = Some r \<Longrightarrow> length r \<le> length s"
  by (auto simp: match_kw_rev_def split: option.splits dest: ci_prefix_length)

lemma length_strip_leading: "length (strip_leading s) \<le> length s"
proof (cases "match_kw (dropWhile is_space s)")
  case None
  then show ?thesis by (simp add: strip_leading_def)
next
  case (Some r)
  have "length (dropWhile is_space r) \<le> length r" by (rule length_dropWhile_le)
  also have "\<dots> \<le> length (dropWhile is_space s)" using Some by (rule match_kw_length)
  also have "\<dots> \<le> length s" by (rule length_dropWhile_le)
  finally show ?thesis using Some by (simp add: strip_leading_def)
qed

lemma length_strip_trailing: "length (strip_trailing s) \<le> length s"
proof (cases "match_kw_rev (dropWhile is_space (rev s))")
  case None
  then show ?thesis by (simp add: strip_trailing_def)
next
  case (Some r)
  have "length (dropWhile is_space r) \<le> length r" by (rule length_dropWhile_le)
  also have "\<dots> \<le> length (dropWhile is_space (rev s))" using Some by (rule match_kw_rev_length)
  also have "\<dots> \<le> length (rev s)" by (rule length_dropWhile_le)
  finally show ?thesis using Some by (simp add: strip_trailing_def)
qed

lemma length_cleanedQuery: "length (cleanedQuery s) \<le> length s"
proof -
  have "length (cleanedQuery s) \<le> length (strip_trailing (strip_leading s))"
    by (simp add: cleanedQuery_def length_trim)
  also have "\<dots> \<le> length (strip_leading s)" by (rule length_strip_trailing)
  also have "\<dots> \<le> length s" by (rule length_strip_leading)
  finally show ?thesis .
qed

lemma cleanedQuery_neq_p: "cleanedQuery s \<noteq> p s"
proof
  assume "cleanedQuery s = p s"
  then have "length (cleanedQuery s) = length s + 2" by (simp add: p_def lit_def)
  with length_cleanedQuery [of s] show False by simp
qed

lemma emit_name_a:
  "emit (obj_name (FString (lit ''a''))) st =
     Inr (lit ''name contains 'a'' @ [squote], st\<lparr>nameIncludes := nameIncludes st @ [lit ''a'']\<rparr>)"
  by (simp add: ev)

lemma emit_starred_true:
  "emit (obj_starred True) st = Inr (lit ''starred = true'', st\<lparr>starredFlag := Some True\<rparr>)"
  by (simp add: ev)

lemma emit_drop_leaves: "has_combinator n \<Longrightarrow> emit n st = emit (drop_leaves n) st"
  by (subst emit_sel, subst (2) emit_sel)
     (auto simp: has_combinator_def drop_leaves_def split: option.splits)

lemma emitTop_drop_leaves: "has_combinator n \<Longrightarrow> emitTop n st = emitTop (drop_leaves n) st"
  by (auto simp: emitTop_def has_combinator_def drop_leaves_def keys_empty_def split: option.splits)

text \<open>Nodes with the same conditions compile to the same result.\<close>

lemma emit_fields_cong:
  assumes "\<And>k. k \<in> set ks \<Longrightarrow>
             map_option normalize (get_field n k) = map_option normalize (get_field n' k)"
  shows "emit_fields n ks e st = emit_fields n' ks e st"
  using assms
proof (induction ks arbitrary: e st)
  case Nil
  show ?case by simp
next
  case (Cons k ks)
  have hd: "map_option normalize (get_field n k) = map_option normalize (get_field n' k)"
    using Cons.prems by simp
  have tl: "\<And>e st. emit_fields n ks e st = emit_fields n' ks e st"
    using Cons.IH Cons.prems by simp
  show ?case
  proof (cases "get_field n k")
    case None
    with hd have "get_field n' k = None" by simp
    with None tl show ?thesis by simp
  next
    case (Some v)
    with hd obtain v' where v': "get_field n' k = Some v'" "normalize v' = normalize v"
      by (cases "get_field n' k") auto
    with Some tl show ?thesis by (simp split: sum.splits prod.splits)
  qed
qed

lemma emit_leaf_cong:
  assumes "same_conditions n n'"
  shows "emit_leaf n st = Inr r \<longleftrightarrow> emit_leaf n' st = Inr r"
proof -
  have f: "\<And>e st. emit_fields n fieldKeys e st = emit_fields n' fieldKeys e st"
    using assms by (intro emit_fields_cong) (simp add: same_conditions_def)
  have s: "starred n = starred n'" "sharedWithMe n = sharedWithMe n'" "trashed n = trashed n'"
    "modifiedTime n = modifiedTime n'" "keys_empty n = keys_empty n'"
    using assms by (simp_all add: same_conditions_def)
  show ?thesis
    unfolding emit_leaf_def f s
    by (simp add: Let_def split: prod.splits sum.splits)
qed

lemma emit_no_combinator: "\<not> has_combinator n \<Longrightarrow> emit n st = emit_leaf n st"
  by (subst emit_sel) (simp add: has_combinator_def)

lemma emitTop_no_combinator:
  "\<not> has_combinator n \<Longrightarrow>
     emitTop n st =
       (if keys_empty n then Inr ([], st)
        else case emit n st of
               Inl e \<Rightarrow> Inl e
             | Inr (result, st') \<Rightarrow> Inr (if trim result = [] then [] else result, st'))"
  by (simp add: emitTop_def has_combinator_def)

lemma same_conditions_combinator:
  assumes "same_conditions n n'"
  shows "has_combinator n = has_combinator n'" and "drop_leaves n = drop_leaves n'"
  using assms by (simp_all add: same_conditions_def has_combinator_def drop_leaves_def)

lemma emit_cong:
  assumes "same_conditions n n'"
  shows "emit n st = Inr r \<longleftrightarrow> emit n' st = Inr r"
proof (cases "has_combinator n")
  case True
  then have "has_combinator n'" using same_conditions_combinator(1) [OF assms] by simp
  then have "emit n' st = emit (drop_leaves n') st" by (rule emit_drop_leaves)
  then have "emit n' st = emit (drop_leaves n) st"
    unfolding same_conditions_combinator(2) [OF assms] .
  moreover have "emit n st = emit (drop_leaves n) st" using True by (rule emit_drop_leaves)
  ultimately show ?thesis by simp
next
  case False
  then have "\<not> has_combinator n'" using same_conditions_combinator(1) [OF assms] by simp
  then have "emit n' st = emit_leaf n' st" by (rule emit_no_combinator)
  moreover have "emit n st = emit_leaf n st" using False by (rule emit_no_combinator)
  ultimately show ?thesis using emit_leaf_cong [OF assms] by simp
qed

lemma trim_result_cong:
  fixes x y :: "error + (jsstring \<times> locals)"
  assumes e: "\<And>r. x = Inr r \<longleftrightarrow> y = Inr r"
  shows "(case x of Inl e \<Rightarrow> Inl e
          | Inr (result, st') \<Rightarrow> Inr (if trim result = [] then [] else result, st')) = Inr r
        \<longleftrightarrow> (case y of Inl e \<Rightarrow> Inl e
          | Inr (result, st') \<Rightarrow> Inr (if trim result = [] then [] else result, st')) = Inr r"
proof (cases x)
  case (Inl a)
  then have "\<And>r. y \<noteq> Inr r" using e by simp
  then obtain b where "y = Inl b" by (cases y) auto
  with Inl show ?thesis by simp
next
  case (Inr b)
  then have "y = Inr b" using e by simp
  with Inr show ?thesis by simp
qed

lemma emitTop_cong:
  assumes "same_conditions n n'"
  shows "emitTop n st = Inr r \<longleftrightarrow> emitTop n' st = Inr r"
proof (cases "has_combinator n")
  case True
  then have "has_combinator n'" using same_conditions_combinator(1) [OF assms] by simp
  then have "emitTop n' st = emitTop (drop_leaves n') st" by (rule emitTop_drop_leaves)
  then have "emitTop n' st = emitTop (drop_leaves n) st"
    unfolding same_conditions_combinator(2) [OF assms] .
  moreover have "emitTop n st = emitTop (drop_leaves n) st" using True by (rule emitTop_drop_leaves)
  ultimately show ?thesis by (simp only:)
next
  case False
  then have F': "\<not> has_combinator n'" using same_conditions_combinator(1) [OF assms] by simp
  have k: "keys_empty n = keys_empty n'" using assms by (simp add: same_conditions_def)
  have e: "\<And>r. emit n st = Inr r \<longleftrightarrow> emit n' st = Inr r"
    using assms by (rule emit_cong)
  show ?thesis
  proof (cases "keys_empty n")
    case True
    then have "emitTop n st = Inr ([], st)" by (simp add: emitTop_def)
    moreover from True k have "emitTop n' st = Inr ([], st)" by (simp add: emitTop_def)
    ultimately show ?thesis by (simp only:)
  next
    case ne: False
    then have 1: "emitTop n st = (case emit n st of Inl e \<Rightarrow> Inl e
          | Inr (result, st') \<Rightarrow> Inr (if trim result = [] then [] else result, st'))"
      by (simp only: emitTop_no_combinator [OF False] if_False)
    from ne k have "\<not> keys_empty n'" by simp
    then have 2: "emitTop n' st = (case emit n' st of Inl e \<Rightarrow> Inl e
          | Inr (result, st') \<Rightarrow> Inr (if trim result = [] then [] else result, st'))"
      by (simp only: emitTop_no_combinator [OF F'] if_False)
    show ?thesis unfolding 1 2 using e by (rule trim_result_cong)
  qed
qed

lemma toDriveQuery_cong:
  assumes "same_conditions n n'"
  shows "toDriveQuery (QObject n) = Inr r \<longleftrightarrow> toDriveQuery (QObject n') = Inr r"
proof -
  have e: "\<And>r. emitTop n init_locals = Inr r \<longleftrightarrow> emitTop n' init_locals = Inr r"
    using assms by (rule emitTop_cong)
  show ?thesis
  proof (cases "emitTop n init_locals")
    case (Inl a)
    then have "\<And>r. emitTop n' init_locals \<noteq> Inr r" using e by simp
    then obtain b where "emitTop n' init_locals = Inl b" by (cases "emitTop n' init_locals") auto
    with Inl show ?thesis by (simp add: toDriveQuery_def)
  next
    case (Inr b)
    then have "emitTop n' init_locals = Inr b" using e by simp
    with Inr show ?thesis by (simp add: toDriveQuery_def)
  qed
qed

lemma get_field_without_raw: "get_field (without_raw n) k = get_field n k"
  by (simp add: get_field_def without_raw_def)

lemma same_conditions_without_raw:
  "\<not> keys_empty (without_raw n) \<Longrightarrow> same_conditions n (without_raw n)"
  by (auto simp: same_conditions_def get_field_without_raw) (auto simp: without_raw_def keys_empty_def)

lemma field_names_distinct:
  "lit ''name'' \<noteq> lit ''mimeType''" "lit ''name'' \<noteq> lit ''fullText''"
  "lit ''name'' \<noteq> lit ''parentId''" "lit ''name'' \<noteq> lit ''owner''"
  "lit ''mimeType'' \<noteq> lit ''fullText''" "lit ''mimeType'' \<noteq> lit ''parentId''"
  "lit ''mimeType'' \<noteq> lit ''owner''" "lit ''fullText'' \<noteq> lit ''parentId''"
  "lit ''fullText'' \<noteq> lit ''owner''" "lit ''parentId'' \<noteq> lit ''owner''"
  by (simp_all add: lit_def cu_def)

lemma get_field_set_field:
  "k \<in> set fieldKeys \<Longrightarrow>
     get_field (set_field k v n) k' = (if k' = k then Some v else get_field n k')"
  using field_names_distinct
  by (auto simp: fieldKeys_def get_field_def set_field_def)

lemma same_conditions_set_field:
  assumes "k \<in> set fieldKeys" and "normalize v = normalize v'"
  shows "same_conditions (set_field k v n) (set_field k v' n)"
proof -
  have "keys_empty (set_field k v n) = keys_empty (set_field k v' n)"
    using assms(1) by (auto simp: fieldKeys_def set_field_def keys_empty_def)
  moreover have "\<forall>k' \<in> set fieldKeys.
      map_option normalize (get_field (set_field k v n) k')
        = map_option normalize (get_field (set_field k v' n) k')"
    using assms by (simp add: get_field_set_field)
  ultimately show ?thesis
    using assms(1) by (auto simp: same_conditions_def fieldKeys_def set_field_def)
qed

section \<open>The lists of the filters\<close>

lemma fv_includes:
  assumes "k \<in> set fieldKeys"
  shows "includes_of k' (snd (fv k v st)) = includes_of k' st @ (if k' = k then [v] else [])"
  using assms field_names_distinct
  by (auto simp: fieldKeys_def fv_def includes_of_def Let_def)

lemma fv_map_includes:
  assumes "k \<in> set fieldKeys"
  shows "fv_map k vs st = (rs, st') \<Longrightarrow>
           includes_of k' st' = includes_of k' st @ (if k' = k then vs else [])"
proof (induction vs arbitrary: st rs st')
  case Nil
  then show ?case by simp
next
  case (Cons v vs)
  obtain r st1 where a: "fv k v st = (r, st1)" by (cases "fv k v st")
  obtain rs1 st2 where b: "fv_map k vs st1 = (rs1, st2)" by (cases "fv_map k vs st1")
  from Cons.prems a b have "st' = st2" by simp
  moreover have "includes_of k' st1 = includes_of k' st @ (if k' = k then [v] else [])"
    using fv_includes [OF assms, of k' v st] a by simp
  moreover have "includes_of k' st2 = includes_of k' st1 @ (if k' = k then vs else [])"
    using Cons.IH [OF b] .
  ultimately show ?case by simp
qed

lemma field_results_includes:
  assumes "k \<in> set fieldKeys" and "field_results k vs st = (rs, st')"
  shows "includes_of k' st' =
           includes_of k' st @ (if k' = k then filter (\<lambda>v. trim v \<noteq> []) vs else [])"
proof -
  obtain m st1 where a: "fv_map k (filter (\<lambda>v. trim v \<noteq> []) vs) st = (m, st1)"
    by (cases "fv_map k (filter (\<lambda>v. trim v \<noteq> []) vs) st")
  with assms(2) have "st' = st1" by (simp add: field_results_def)
  with fv_map_includes [OF assms(1) a] show ?thesis by simp
qed

lemma fieldExpr_includes:
  assumes "k \<in> set fieldKeys" and "fieldExpr k op st = Inr (res, st')"
  shows "includes_of k' st' = includes_of k' st @ (if k' = k then op_values op else [])"
proof -
  consider vs where "dollar_any op = Some vs"
    | vs where "dollar_any op = None" "dollar_all op = Some vs"
    | vs where "dollar_any op = None" "dollar_all op = None" "dollar_none op = Some vs"
    | "dollar_any op = None" "dollar_all op = None" "dollar_none op = None"
    by (cases "dollar_any op"; cases "dollar_all op"; cases "dollar_none op") auto
  then show ?thesis
  proof cases
    case 1
    obtain rs st1 where a: "field_results k vs st = (rs, st1)" by (cases "field_results k vs st")
    with assms(2) 1 have "st' = st1" by (simp add: fieldExpr_def)
    with field_results_includes [OF assms(1) a] 1 show ?thesis by (simp add: op_values_def)
  next
    case 2
    obtain rs st1 where a: "field_results k vs st = (rs, st1)" by (cases "field_results k vs st")
    with assms(2) 2 have "st' = st1" by (simp add: fieldExpr_def)
    with field_results_includes [OF assms(1) a] 2 show ?thesis by (simp add: op_values_def)
  next
    case 3
    obtain rs st1 where a: "field_results k vs st = (rs, st1)" by (cases "field_results k vs st")
    with assms(2) 3 have "st' = st1" by (simp add: fieldExpr_def)
    with field_results_includes [OF assms(1) a] 3 show ?thesis by (simp add: op_values_def)
  next
    case 4
    with assms(2) show ?thesis by (simp add: fieldExpr_def)
  qed
qed

lemma emit_fields_includes:
  assumes "set ks \<subseteq> set fieldKeys" and "distinct ks"
  shows "emit_fields n ks e st = Inr (e', st') \<Longrightarrow>
           includes_of k' st' = includes_of k' st @ (if k' \<in> set ks then leaf_values k' n else [])"
  using assms
proof (induction ks arbitrary: e st)
  case Nil
  then show ?case by simp
next
  case (Cons k ks)
  have kf: "k \<in> set fieldKeys" and sub: "set ks \<subseteq> set fieldKeys" and d: "distinct ks"
    and nk: "k \<notin> set ks"
    using Cons.prems by auto
  show ?case
  proof (cases "get_field n k")
    case None
    with Cons.prems(1) have "emit_fields n ks e st = Inr (e', st')" by simp
    from Cons.IH [OF this sub d] None show ?thesis by (auto simp: leaf_values_def)
  next
    case (Some v)
    show ?thesis
    proof (cases "fieldExpr k (normalize v) st")
      case (Inl err)
      with Cons.prems(1) Some show ?thesis by simp
    next
      case (Inr out)
      obtain res st1 where out: "out = (res, st1)" by (cases out)
      from Cons.prems(1) Some Inr out
      have r: "emit_fields n ks (if trim res \<noteq> [] then e @ [res] else e) st1 = Inr (e', st')"
        by simp
      have 1: "includes_of k' st1 =
                 includes_of k' st @ (if k' = k then op_values (normalize v) else [])"
        using fieldExpr_includes [OF kf] Inr out by simp
      have 2: "includes_of k' st' =
                 includes_of k' st1 @ (if k' \<in> set ks then leaf_values k' n else [])"
        using Cons.IH [OF r sub d] .
      show ?thesis using 1 2 Some nk by (auto simp: leaf_values_def)
    qed
  qed
qed

lemma leaf_values_outside: "k \<notin> set fieldKeys \<Longrightarrow> leaf_values k n = []"
  by (auto simp: leaf_values_def get_field_def fieldKeys_def)

lemma includes_of_flags [simp]:
  "includes_of k (st\<lparr>starredFlag := a\<rparr>) = includes_of k st"
  "includes_of k (st\<lparr>sharedWithMeFlag := a\<rparr>) = includes_of k st"
  "includes_of k (st\<lparr>trashedFlag := a\<rparr>) = includes_of k st"
  by (simp_all add: includes_of_def)

lemma distinct_fieldKeys: "distinct fieldKeys"
  using field_names_distinct by (simp add: fieldKeys_def)

lemma emit_leaf_includes:
  assumes "emit_leaf n st = Inr (s, st')"
  shows "includes_of k st' = includes_of k st @ leaf_values k n"
proof -
  define st3 where "st3 =
    (case trashed n of Some b \<Rightarrow> (\<lambda>s. s\<lparr>trashedFlag := Some b\<rparr>) | None \<Rightarrow> (\<lambda>s. s))
    ((case sharedWithMe n of Some b \<Rightarrow> (\<lambda>s. s\<lparr>sharedWithMeFlag := Some b\<rparr>) | None \<Rightarrow> (\<lambda>s. s))
    ((case starred n of Some b \<Rightarrow> (\<lambda>s. s\<lparr>starredFlag := Some b\<rparr>) | None \<Rightarrow> (\<lambda>s. s)) st))"
  have i3: "includes_of k st3 = includes_of k st"
    by (simp add: st3_def split: option.splits)
  from assms obtain e4 e' where "emit_fields n fieldKeys e4 st3 = Inr (e', st')"
    by (auto simp: emit_leaf_def st3_def Let_def split: option.splits sum.splits prod.splits if_splits)
  from emit_fields_includes [OF subset_refl distinct_fieldKeys this, of k]
  show ?thesis using i3 leaf_values_outside [of k n] by (cases "k \<in> set fieldKeys") simp_all
qed

lemma compiled_values_sel:
  "compiled_values k n =
     (case dollar_and n of Some xs \<Rightarrow> concat (map (compiled_values k) xs) | None \<Rightarrow>
     (case dollar_or n of Some xs \<Rightarrow> concat (map (compiled_values k) xs) | None \<Rightarrow>
     (case dollar_not n of Some x \<Rightarrow> compiled_values k x | None \<Rightarrow> leaf_values k n)))"
  by (cases n) (simp split: option.splits)

lemma emit_includes:
  "emit n st = Inr (s, st') \<Longrightarrow> includes_of k st' = includes_of k st @ compiled_values k n"
  "emit_list xs st = Inr (ss, st') \<Longrightarrow>
     includes_of k st' = includes_of k st @ concat (map (compiled_values k) xs)"
proof (induction n st and xs st arbitrary: s st' and ss st' rule: emit_emit_list.induct)
  case (1 a b c nm mt ft pid sr sw tr mo ow raw st)
  show ?case
  proof (cases a)
    case (Some xs)
    with "1.prems" obtain ss where "emit_list xs st = Inr (ss, st')"
      by (auto split: sum.splits)
    with Some have "includes_of k st' = includes_of k st @ concat (map (compiled_values k) xs)"
      by (rule "1.IH")
    with Some show ?thesis by simp
  next
    case na: None
    show ?thesis
    proof (cases b)
      case (Some xs)
      with na "1.prems" obtain ss where "emit_list xs st = Inr (ss, st')"
        by (auto split: sum.splits)
      with na Some
      have "includes_of k st' = includes_of k st @ concat (map (compiled_values k) xs)"
        by (rule "1.IH")
      with na Some show ?thesis by simp
    next
      case nb: None
      show ?thesis
      proof (cases c)
        case (Some x)
        with na nb "1.prems" obtain s' where "emit x st = Inr (s', st')"
          by (auto split: sum.splits)
        with na nb Some have "includes_of k st' = includes_of k st @ compiled_values k x"
          by (rule "1.IH")
        with na nb Some show ?thesis by simp
      next
        case None
        with na nb "1.prems"
        have "emit_leaf (DriveQueryObject a b c nm mt ft pid sr sw tr mo ow raw) st = Inr (s, st')"
          by simp
        from emit_leaf_includes [OF this] na nb None show ?thesis by simp
      qed
    qed
  qed
next
  case (2 st)
  then show ?case by simp
next
  case (3 x xs st)
  from "3.prems" obtain s1 st1 ss1 where a: "emit x st = Inr (s1, st1)"
    and b: "emit_list xs st1 = Inr (ss1, st')"
    by (auto split: sum.splits)
  from a have 1: "includes_of k st1 = includes_of k st @ compiled_values k x"
    by (rule "3.IH")
  have 2: "includes_of k st' = includes_of k st1 @ concat (map (compiled_values k) xs)"
    using a refl b by (rule "3.IH")
  from 1 2 show ?case by simp
qed

lemma leaf_values_keys_empty: "keys_empty n \<Longrightarrow> leaf_values k n = []"
  by (auto simp: leaf_values_def keys_empty_def get_field_def)

lemma emitTop_includes:
  assumes "emitTop n st = Inr (s, st')"
  shows "includes_of k st' = includes_of k st @ compiled_values k n"
proof (cases "keys_empty n")
  case True
  then have "dollar_and n = None" "dollar_or n = None" "dollar_not n = None"
    by (simp_all add: keys_empty_def)
  with True have "compiled_values k n = []"
    by (subst compiled_values_sel) (simp add: leaf_values_keys_empty)
  with True assms show ?thesis by (simp add: emitTop_def)
next
  case ne: False
  show ?thesis
  proof (cases "has_combinator n")
    case True
    have "emit n st = (case emitTop n st of Inl e \<Rightarrow> Inl e | Inr (s, st') \<Rightarrow>
              Inr (if dollar_and n = None \<and> dollar_or n = None then s else p s, st'))"
      using True ne
      by (subst emit_sel)
         (auto simp: emitTop_def has_combinator_def split: option.splits sum.splits)
    with assms obtain s' where "emit n st = Inr (s', st')" by simp
    then show ?thesis by (rule emit_includes(1))
  next
    case False
    with ne assms obtain s' where "emit n st = Inr (s', st')"
      by (auto simp: emitTop_no_combinator split: sum.splits)
    then show ?thesis by (rule emit_includes(1))
  qed
qed

lemma includes_of_init: "includes_of k init_locals = []"
  by (simp add: includes_of_def init_locals_def)

section \<open>When compilation returns\<close>

lemma trim_Nil_iff: "trim s = [] \<longleftrightarrow> (\<forall>c \<in> set s. is_space c)"
proof
  assume "trim s = []"
  then have a: "\<forall>c \<in> set (dropWhile is_space s). is_space c"
    by (simp add: trim_def)
  have "dropWhile is_space s = []"
  proof (cases "dropWhile is_space s")
    case Nil
    then show ?thesis .
  next
    case (Cons c cs)
    then have "\<not> is_space c" using hd_dropWhile [of is_space s] by simp
    with a Cons show ?thesis by simp
  qed
  then show "\<forall>c \<in> set s. is_space c" by simp
next
  assume "\<forall>c \<in> set s. is_space c"
  then show "trim s = []" by (auto simp: trim_def dest: set_dropWhileD)
qed

lemma not_blankI: "c \<in> set s \<Longrightarrow> \<not> is_space c \<Longrightarrow> trim s \<noteq> []"
  by (auto simp: trim_Nil_iff)

lemma not_space_squote: "\<not> is_space squote"
  by (simp add: is_space_def squote_def)

lemma not_space_n: "\<not> is_space (cu CHR ''n'')"
  by (simp add: is_space_def cu_def)

lemma fv_not_blank:
  assumes "k \<in> set fieldKeys"
  shows "trim (fst (fv k v st)) \<noteq> []"
proof -
  have "squote \<in> set (fst (fv k v st))"
    using assms by (auto simp: fieldKeys_def fv_def quote_def Let_def)
  then show ?thesis using not_space_squote by (rule not_blankI)
qed

lemma fv_map_not_blank:
  assumes "k \<in> set fieldKeys"
  shows "fv_map k vs st = (rs, st') \<Longrightarrow> length rs = length vs \<and> (\<forall>r \<in> set rs. trim r \<noteq> [])"
proof (induction vs arbitrary: st rs st')
  case Nil
  then show ?case by simp
next
  case (Cons v vs)
  obtain r st1 where a: "fv k v st = (r, st1)" by (cases "fv k v st")
  obtain rs1 st2 where b: "fv_map k vs st1 = (rs1, st2)" by (cases "fv_map k vs st1")
  from Cons.prems a b have rs: "rs = r # rs1" by simp
  have "trim r \<noteq> []" using fv_not_blank [OF assms, of v st] a by simp
  with Cons.IH [OF b] rs show ?case by simp
qed

lemma field_results_not_blank:
  assumes "k \<in> set fieldKeys" and "field_results k vs st = (rs, st')"
  shows "length rs = length (filter (\<lambda>v. trim v \<noteq> []) vs) \<and> (\<forall>r \<in> set rs. trim r \<noteq> [])"
proof -
  obtain m st1 where a: "fv_map k (filter (\<lambda>v. trim v \<noteq> []) vs) st = (m, st1)"
    by (cases "fv_map k (filter (\<lambda>v. trim v \<noteq> []) vs) st")
  from fv_map_not_blank [OF assms(1) a]
  have m: "length m = length (filter (\<lambda>v. trim v \<noteq> []) vs)" "\<forall>r \<in> set m. trim r \<noteq> []"
    by simp_all
  then have "filter (\<lambda>r. trim r \<noteq> []) m = m" by simp
  with assms(2) a have "rs = m" by (simp add: field_results_def)
  with m show ?thesis by simp
qed

lemma chain_not_blank:
  assumes "rs \<noteq> []" and "\<forall>r \<in> set rs. trim r \<noteq> []"
  shows "trim (chain op rs) \<noteq> []"
proof -
  have "\<forall>r \<in> set rs. r \<noteq> [] \<and> trim r \<noteq> []"
    using assms(2) by (auto simp: trim_def)
  then have f: "filter (\<lambda>s. s \<noteq> [] \<and> trim s \<noteq> []) rs = rs" by simp
  show ?thesis
  proof (cases rs)
    case Nil
    with assms(1) show ?thesis by simp
  next
    case (Cons x xs)
    show ?thesis
    proof (cases xs)
      case Nil
      have "chain op rs = x" unfolding chain_def Let_def f by (simp add: Cons Nil)
      with assms(2) Cons show ?thesis by simp
    next
      case c2: (Cons y ys)
      have "chain op rs = p (join (lit '' '' @ op_str op @ lit '' '') rs)"
        unfolding chain_def Let_def f by (simp add: Cons c2)
      moreover have "p (join (lit '' '' @ op_str op @ lit '' '') rs) \<noteq> []"
        by (simp add: p_def lit_def)
      ultimately show ?thesis by (simp add: trim_p)
    qed
  qed
qed

lemma not_prefix_not_blank: "trim (lit ''not '' @ s) \<noteq> []"
  by (rule not_blankI [of "cu CHR ''n''"]) (simp_all add: lit_def not_space_n)

lemma fieldExpr_known:
  assumes "k \<in> set fieldKeys" and "op_known op"
  shows "\<exists>res st'. fieldExpr k op st = Inr (res, st') \<and> (trim res \<noteq> [] \<longleftrightarrow> op_values op \<noteq> [])"
proof -
  have step: "\<exists>res st'. (let (results, st') = field_results k vs st
                 in Inr (if length results > 0 then g results else [], st')) = (Inr (res, st') :: error + (jsstring \<times> locals))
              \<and> (trim res \<noteq> [] \<longleftrightarrow> filter (\<lambda>v. trim v \<noteq> []) vs \<noteq> [])"
    if g: "\<And>rs. rs \<noteq> [] \<Longrightarrow> \<forall>r \<in> set rs. trim r \<noteq> [] \<Longrightarrow> trim (g rs) \<noteq> []"
    for vs and g :: "jsstring list \<Rightarrow> jsstring"
  proof -
    obtain rs st1 where a: "field_results k vs st = (rs, st1)" by (cases "field_results k vs st")
    from field_results_not_blank [OF assms(1) a]
    have l: "length rs = length (filter (\<lambda>v. trim v \<noteq> []) vs)" and nb: "\<forall>r \<in> set rs. trim r \<noteq> []"
      by simp_all
    show ?thesis
    proof (cases "rs = []")
      case True
      with l a show ?thesis by (simp add: trim_def)
    next
      case False
      with g nb have "trim (g rs) \<noteq> []" by simp
      moreover from False l have "filter (\<lambda>v. trim v \<noteq> []) vs \<noteq> []" by auto
      ultimately show ?thesis using a False by simp
    qed
  qed
  consider vs where "dollar_any op = Some vs"
    | vs where "dollar_any op = None" "dollar_all op = Some vs"
    | vs where "dollar_any op = None" "dollar_all op = None" "dollar_none op = Some vs"
    using assms(2) by (cases "dollar_any op"; cases "dollar_all op"; cases "dollar_none op")
                      (auto simp: op_known_def)
  then show ?thesis
  proof cases
    case 1
    from step [of "chain OpOr" vs] 1 show ?thesis
      by (simp add: fieldExpr_def op_values_def chain_not_blank)
  next
    case 2
    from step [of "chain OpAnd" vs] 2 show ?thesis
      by (simp add: fieldExpr_def op_values_def chain_not_blank)
  next
    case 3
    from step [of "\<lambda>rs. lit ''not '' @ p (chain OpOr rs)" vs] 3 show ?thesis
      by (simp add: fieldExpr_def op_values_def not_prefix_not_blank)
  qed
qed

lemma fieldExpr_unknown: "\<not> op_known op \<Longrightarrow> fieldExpr k op st = Inl (UnknownFieldOperator op)"
  by (simp add: fieldExpr_def op_known_def)

lemma emit_leaf_unfold:
  "emit_leaf n st =
     (case emit_fields n fieldKeys (flag_exprs n) (flag_state n st) of
        Inl e \<Rightarrow> Inl e
      | Inr (expressions, st4) \<Rightarrow>
          if length expressions = 0 \<and> keys_empty n then Inr ([], st4)
          else if length expressions > 1 then Inr (chain OpAnd expressions, st4)
          else if length expressions = 1 then Inr (hd expressions, st4)
          else Inl (UnknownNode n))"
  by (cases "starred n"; cases "sharedWithMe n"; cases "trashed n"; cases "modifiedTime n")
     (simp_all add: emit_leaf_def flag_exprs_def flag_state_def)

lemma flag_exprs_Nil_iff:
  "flag_exprs n = [] \<longleftrightarrow>
     starred n = None \<and> sharedWithMe n = None \<and> trashed n = None \<and> modifiedTime n = None"
  by (simp add: flag_exprs_def split: option.splits)

lemma emit_fields_known:
  assumes "set ks \<subseteq> set fieldKeys"
      and "\<forall>k \<in> set ks. case get_field n k of None \<Rightarrow> True | Some v \<Rightarrow> op_known (normalize v)"
  shows "\<exists>e' st'. emit_fields n ks e st = Inr (e', st') \<and> length e \<le> length e' \<and>
           ((\<exists>k \<in> set ks. leaf_values k n \<noteq> []) \<longrightarrow> length e < length e')"
  using assms
proof (induction ks arbitrary: e st)
  case Nil
  then show ?case by simp
next
  case (Cons k ks)
  have kf: "k \<in> set fieldKeys" and sub: "set ks \<subseteq> set fieldKeys"
    and kn: "\<forall>k \<in> set ks. case get_field n k of None \<Rightarrow> True | Some v \<Rightarrow> op_known (normalize v)"
    using Cons.prems by auto
  show ?case
  proof (cases "get_field n k")
    case None
    from Cons.IH [OF sub kn, of e st] obtain e' st' where
      r: "emit_fields n ks e st = Inr (e', st')" "length e \<le> length e'"
         "(\<exists>k \<in> set ks. leaf_values k n \<noteq> []) \<longrightarrow> length e < length e'"
      by blast
    have "leaf_values k n = []" using None by (simp add: leaf_values_def)
    with r None show ?thesis by simp
  next
    case (Some v)
    with Cons.prems(2) have "op_known (normalize v)" by simp
    from fieldExpr_known [OF kf this, of st] obtain res st1 where
      f: "fieldExpr k (normalize v) st = Inr (res, st1)"
         "trim res \<noteq> [] \<longleftrightarrow> op_values (normalize v) \<noteq> []"
      by blast
    let ?e1 = "if trim res \<noteq> [] then e @ [res] else e"
    from Cons.IH [OF sub kn, of ?e1 st1] obtain e' st' where
      r: "emit_fields n ks ?e1 st1 = Inr (e', st')" "length ?e1 \<le> length e'"
         "(\<exists>k \<in> set ks. leaf_values k n \<noteq> []) \<longrightarrow> length ?e1 < length e'"
      by blast
    have lv: "leaf_values k n = op_values (normalize v)" using Some by (simp add: leaf_values_def)
    have 1: "emit_fields n (k # ks) e st = Inr (e', st')" using Some f(1) r(1) by simp
    have 2: "length e \<le> length e'" using r(2) by (simp split: if_splits)
    have 3: "(\<exists>k' \<in> set (k # ks). leaf_values k' n \<noteq> []) \<longrightarrow> length e < length e'"
    proof
      assume "\<exists>k' \<in> set (k # ks). leaf_values k' n \<noteq> []"
      then consider "leaf_values k n \<noteq> []" | "\<exists>k' \<in> set ks. leaf_values k' n \<noteq> []" by auto
      then show "length e < length e'"
      proof cases
        case 1
        with lv f(2) have "trim res \<noteq> []" by simp
        with r(2) show ?thesis by simp
      next
        case 2
        with r(3) have "length ?e1 < length e'" by simp
        then show ?thesis by (simp split: if_splits)
      qed
    qed
    from 1 2 3 show ?thesis by blast
  qed
qed

lemma emit_leaf_total:
  assumes "leaf_ok n"
  shows "\<exists>r. emit_leaf n st = Inr r"
proof -
  from assms have kn: "\<forall>k \<in> set fieldKeys.
      case get_field n k of None \<Rightarrow> True | Some v \<Rightarrow> op_known (normalize v)"
    by (simp add: leaf_ok_def)
  from emit_fields_known [OF subset_refl kn, of "flag_exprs n" "flag_state n st"]
  obtain e' st' where
    r: "emit_fields n fieldKeys (flag_exprs n) (flag_state n st) = Inr (e', st')"
       "length (flag_exprs n) \<le> length e'"
       "(\<exists>k \<in> set fieldKeys. leaf_values k n \<noteq> []) \<longrightarrow> length (flag_exprs n) < length e'"
    by blast
  have "keys_empty n \<or> e' \<noteq> []"
  proof (cases "keys_empty n")
    case True
    then show ?thesis by simp
  next
    case False
    with assms consider "flag_exprs n \<noteq> []" | "\<exists>k \<in> set fieldKeys. leaf_values k n \<noteq> []"
      by (auto simp: leaf_ok_def flag_exprs_Nil_iff)
    then have "e' \<noteq> []"
    proof cases
      case 1
      with r(2) show ?thesis by auto
    next
      case 2
      with r(3) show ?thesis by auto
    qed
    then show ?thesis by simp
  qed
  then show ?thesis
    unfolding emit_leaf_unfold r(1)
    by (cases e') (auto split: if_splits)
qed

lemma emit_total:
  "compilable n \<Longrightarrow> \<exists>r. emit n st = Inr r"
  "\<forall>x \<in> set xs. compilable x \<Longrightarrow> \<exists>r. emit_list xs st = Inr r"
proof (induction n st and xs st rule: emit_emit_list.induct)
  case (1 a b c nm mt ft pid sr sw tr mo ow raw st)
  show ?case
  proof (cases a)
    case (Some xs)
    with "1.prems" have "\<forall>x \<in> set xs. compilable x" by simp
    with Some have "\<exists>r. emit_list xs st = Inr r" by (rule "1.IH")
    with Some show ?thesis by auto
  next
    case na: None
    show ?thesis
    proof (cases b)
      case (Some xs)
      with na "1.prems" have "\<forall>x \<in> set xs. compilable x" by simp
      with na Some have "\<exists>r. emit_list xs st = Inr r" by (rule "1.IH")
      with na Some show ?thesis by auto
    next
      case nb: None
      show ?thesis
      proof (cases c)
        case (Some x)
        with na nb "1.prems" have "compilable x" by simp
        with na nb Some have "\<exists>r. emit x st = Inr r" by (rule "1.IH")
        with na nb Some show ?thesis by auto
      next
        case None
        with na nb "1.prems"
        have "leaf_ok (DriveQueryObject a b c nm mt ft pid sr sw tr mo ow raw)" by simp
        from emit_leaf_total [OF this, of st] na nb None show ?thesis by simp
      qed
    qed
  qed
next
  case (2 st)
  then show ?case by simp
next
  case (3 x xs st)
  from "3.prems" have cx: "compilable x" and cxs: "\<forall>y \<in> set xs. compilable y" by simp_all
  from cx have "\<exists>r. emit x st = Inr r" by (rule "3.IH")
  then obtain s1 st1 where a: "emit x st = Inr (s1, st1)" by auto
  have "\<exists>r. emit_list xs st1 = Inr r" using a refl cxs by (rule "3.IH")
  with a show ?case by auto
qed

lemma compilable_sel:
  "compilable n =
     (case dollar_and n of Some xs \<Rightarrow> (\<forall>x \<in> set xs. compilable x) | None \<Rightarrow>
     (case dollar_or n of Some xs \<Rightarrow> (\<forall>x \<in> set xs. compilable x) | None \<Rightarrow>
     (case dollar_not n of Some x \<Rightarrow> compilable x | None \<Rightarrow> leaf_ok n)))"
  by (cases n) (simp split: option.splits)

lemma emitTop_total:
  assumes "compilable n"
  shows "\<exists>r. emitTop n st = Inr r"
proof (cases "has_combinator n")
  case True
  from emit_total(1) [OF assms, of st] obtain s st' where e: "emit n st = Inr (s, st')" by auto
  have "emit n st = (case emitTop n st of Inl e \<Rightarrow> Inl e | Inr (s, st') \<Rightarrow>
              Inr (if dollar_and n = None \<and> dollar_or n = None then s else p s, st'))"
    using True
    by (subst emit_sel)
       (auto simp: emitTop_def has_combinator_def keys_empty_def split: option.splits sum.splits)
  with e show ?thesis by (cases "emitTop n st") auto
next
  case False
  from emit_total(1) [OF assms, of st] obtain r where "emit n st = Inr r" by auto
  then show ?thesis by (cases r) (simp add: emitTop_no_combinator [OF False])
qed

lemma fieldExpr_known_returns: "op_known op \<Longrightarrow> \<exists>r. fieldExpr k op st = Inr r"
  by (auto simp: fieldExpr_def op_known_def split: option.splits prod.splits)

lemma emit_fields_unknown:
  assumes "k \<in> set ks" and "get_field n k = Some v" and "\<not> op_known (normalize v)"
  shows "\<exists>op. \<not> op_known op \<and> emit_fields n ks e st = Inl (UnknownFieldOperator op)"
  using assms(1)
proof (induction ks arbitrary: e st)
  case Nil
  then show ?case by simp
next
  case (Cons k0 ks)
  show ?case
  proof (cases "get_field n k0")
    case None
    with assms(2) have "k \<noteq> k0" by auto
    with Cons.prems have "k \<in> set ks" by simp
    from Cons.IH [OF this, of e st] None show ?thesis by simp
  next
    case (Some v0)
    show ?thesis
    proof (cases "op_known (normalize v0)")
      case False
      with Some show ?thesis by (auto simp: fieldExpr_unknown)
    next
      case True
      with Some assms(2,3) have "k \<noteq> k0" by auto
      with Cons.prems have k: "k \<in> set ks" by simp
      from fieldExpr_known_returns [OF True, of k0 st] obtain res st1 where
        f: "fieldExpr k0 (normalize v0) st = Inr (res, st1)" by auto
      from Cons.IH [OF k, of "if trim res \<noteq> [] then e @ [res] else e" st1] Some f
      show ?thesis by simp
    qed
  qed
qed

lemma toDriveQuery_unknown_operator:
  assumes "\<not> has_combinator n" and "k \<in> set fieldKeys"
      and "get_field n k = Some (FOperator op)" and "\<not> op_known op"
  shows "\<exists>op'. \<not> op_known op' \<and> toDriveQuery (QObject n) = Inl (UnknownFieldOperator op')"
proof -
  have "\<not> op_known (normalize (FOperator op))" using assms(4) by (simp add: normalize_def)
  from emit_fields_unknown [OF assms(2,3) this, of "flag_exprs n" "flag_state n init_locals"]
  obtain op' where u: "\<not> op_known op'"
    "emit_fields n fieldKeys (flag_exprs n) (flag_state n init_locals) = Inl (UnknownFieldOperator op')"
    by blast
  then have "emit_leaf n init_locals = Inl (UnknownFieldOperator op')"
    by (simp add: emit_leaf_unfold)
  then have e: "emit n init_locals = Inl (UnknownFieldOperator op')"
    by (simp add: emit_no_combinator [OF assms(1)])
  have "\<not> keys_empty n"
    using assms(3) by (auto simp: keys_empty_def get_field_def split: if_splits)
  with e have "emitTop n init_locals = Inl (UnknownFieldOperator op')"
    by (simp add: emitTop_no_combinator [OF assms(1)])
  with u(1) show ?thesis by (auto simp: toDriveQuery_def)
qed

section \<open>When compilation throws, and the key rawDriveQuery\<close>

lemma Inr_iff_cases:
  fixes x y :: "error + 'a"
  assumes "\<And>r. x = Inr r \<longleftrightarrow> y = Inr r"
  obtains (fail) e e' where "x = Inl e" and "y = Inl e'"
        | (ok) v where "x = Inr v" and "y = Inr v"
proof (cases x)
  case (Inl e)
  then have "\<And>r. y \<noteq> Inr r" using assms by simp
  then obtain e' where "y = Inl e'" by (cases y) auto
  with Inl show ?thesis by (rule fail)
next
  case (Inr v)
  then have "y = Inr v" using assms by simp
  with Inr show ?thesis by (rule ok)
qed

lemma raw_only_leaf:
  assumes "rawDriveQuery n \<noteq> None" and "keys_empty (without_raw n)"
  shows "emit_leaf n st = Inl (UnknownNode n)"
proof -
  from assms(2) have k: "dollar_and n = None" "dollar_or n = None" "dollar_not n = None"
    "name n = None" "mimeType n = None" "fullText n = None" "parentId n = None"
    "starred n = None" "sharedWithMe n = None" "trashed n = None" "modifiedTime n = None"
    "owner n = None"
    by (simp_all add: keys_empty_def without_raw_def)
  from assms(1) have "\<not> keys_empty n" by (simp add: keys_empty_def)
  then show ?thesis
    by (simp add: emit_leaf_def k fieldKeys_def get_field_def)
qed

lemma raw_only_no_combinator:
  "keys_empty (without_raw n) \<Longrightarrow> \<not> has_combinator n"
  by (simp add: keys_empty_def without_raw_def has_combinator_def)

lemma emit_leaf_malformed:
  assumes "leaf_malformed n"
  shows "\<exists>e. emit_leaf n st = Inl e"
proof -
  from assms consider
      k v where "k \<in> set fieldKeys" "get_field n k = Some v" "\<not> op_known (normalize v)"
    | "rawDriveQuery n \<noteq> None" "keys_empty (without_raw n)"
    by (auto simp: leaf_malformed_def split: option.splits)
  then show ?thesis
  proof cases
    case 1
    from emit_fields_unknown [OF 1, of "flag_exprs n" "flag_state n st"]
    show ?thesis by (auto simp: emit_leaf_unfold)
  next
    case 2
    then show ?thesis by (simp add: raw_only_leaf)
  qed
qed

lemma emit_malformed:
  "malformed n \<Longrightarrow> \<exists>e. emit n st = Inl e"
  "\<exists>x \<in> set xs. malformed x \<Longrightarrow> \<exists>e. emit_list xs st = Inl e"
proof (induction n st and xs st rule: emit_emit_list.induct)
  case (1 a b c nm mt ft pid sr sw tr mo ow raw st)
  show ?case
  proof (cases a)
    case (Some xs)
    with "1.prems" have "\<exists>x \<in> set xs. malformed x" by simp
    with Some have "\<exists>e. emit_list xs st = Inl e" by (rule "1.IH")
    with Some show ?thesis by auto
  next
    case na: None
    show ?thesis
    proof (cases b)
      case (Some xs)
      with na "1.prems" have "\<exists>x \<in> set xs. malformed x" by simp
      with na Some have "\<exists>e. emit_list xs st = Inl e" by (rule "1.IH")
      with na Some show ?thesis by auto
    next
      case nb: None
      show ?thesis
      proof (cases c)
        case (Some x)
        with na nb "1.prems" have "malformed x" by simp
        with na nb Some have "\<exists>e. emit x st = Inl e" by (rule "1.IH")
        with na nb Some show ?thesis by auto
      next
        case None
        with na nb "1.prems"
        have "leaf_malformed (DriveQueryObject a b c nm mt ft pid sr sw tr mo ow raw)" by simp
        from emit_leaf_malformed [OF this, of st] na nb None show ?thesis by simp
      qed
    qed
  qed
next
  case (2 st)
  then show ?case by simp
next
  case (3 x xs st)
  show ?case
  proof (cases "emit x st")
    case (Inl e)
    then show ?thesis by simp
  next
    case (Inr v)
    obtain s1 st1 where v: "v = (s1, st1)" by (cases v)
    have "\<not> malformed x"
    proof
      assume "malformed x"
      then have "\<exists>e. emit x st = Inl e" by (rule "3.IH")
      with Inr show False by simp
    qed
    with "3.prems" have m: "\<exists>y \<in> set xs. malformed y" by auto
    from Inr v have a: "emit x st = Inr (s1, st1)" by simp
    have "\<exists>e. emit_list xs st1 = Inl e" using a refl m by (rule "3.IH")
    with a show ?thesis by auto
  qed
qed

lemma malformed_sel:
  "malformed n =
     (case dollar_and n of Some xs \<Rightarrow> (\<exists>x \<in> set xs. malformed x) | None \<Rightarrow>
     (case dollar_or n of Some xs \<Rightarrow> (\<exists>x \<in> set xs. malformed x) | None \<Rightarrow>
     (case dollar_not n of Some x \<Rightarrow> malformed x | None \<Rightarrow> leaf_malformed n)))"
  by (cases n) (simp split: option.splits)

lemma leaf_malformed_keys: "leaf_malformed n \<Longrightarrow> \<not> keys_empty n"
  by (auto simp: leaf_malformed_def keys_empty_def get_field_def split: if_splits option.splits)

lemma malformed_keys:
  assumes "malformed n"
  shows "\<not> keys_empty n"
proof (cases "has_combinator n")
  case True
  then show ?thesis by (auto simp: has_combinator_def keys_empty_def)
next
  case False
  with assms have "leaf_malformed n"
    by (subst (asm) malformed_sel) (simp add: has_combinator_def)
  then show ?thesis by (rule leaf_malformed_keys)
qed

text \<open>Where \<open>emit\<close> throws, \<open>emitTop\<close> throws.\<close>

lemma emitTop_Inl:
  assumes "emit n st = Inl e" and "\<not> keys_empty n"
  shows "\<exists>e'. emitTop n st = Inl e'"
proof (cases "has_combinator n")
  case True
  have "emit n st = (case emitTop n st of Inl e \<Rightarrow> Inl e | Inr (s, st') \<Rightarrow>
              Inr (if dollar_and n = None \<and> dollar_or n = None then s else p s, st'))"
    using True assms(2)
    by (subst emit_sel)
       (auto simp: emitTop_def has_combinator_def split: option.splits sum.splits)
  with assms(1) show ?thesis by (cases "emitTop n st") auto
next
  case False
  with assms show ?thesis by (simp add: emitTop_no_combinator)
qed

lemma toDriveQuery_malformed:
  assumes "malformed n"
  shows "\<exists>e. toDriveQuery (QObject n) = Inl e"
proof -
  from emit_malformed(1) [OF assms, of init_locals] obtain e where "emit n init_locals = Inl e"
    by auto
  from emitTop_Inl [OF this malformed_keys [OF assms]] show ?thesis
    by (auto simp: toDriveQuery_def)
qed

lemma emit_unknown_operator:
  assumes "\<not> has_combinator n" and "k \<in> set fieldKeys"
      and "get_field n k = Some (FOperator op)" and "\<not> op_known op"
  shows "\<exists>op'. \<not> op_known op' \<and> emit n st = Inl (UnknownFieldOperator op')"
proof -
  have "\<not> op_known (normalize (FOperator op))" using assms(4) by (simp add: normalize_def)
  from emit_fields_unknown [OF assms(2,3) this, of "flag_exprs n" "flag_state n st"]
  obtain op' where u: "\<not> op_known op'"
    "emit_fields n fieldKeys (flag_exprs n) (flag_state n st) = Inl (UnknownFieldOperator op')"
    by blast
  then have "emit_leaf n st = Inl (UnknownFieldOperator op')"
    by (simp add: emit_leaf_unfold)
  with u(1) show ?thesis by (auto simp: emit_no_combinator [OF assms(1)])
qed

lemma emit_obj_raw: "emit (obj_raw s) st = Inl (UnknownNode (obj_raw s))"
proof -
  have "\<not> has_combinator (obj_raw s)" by (simp add: has_combinator_def obj_raw_def)
  then have "emit (obj_raw s) st = emit_leaf (obj_raw s) st" by (rule emit_no_combinator)
  also have "\<dots> = Inl (UnknownNode (obj_raw s))"
    by (rule raw_only_leaf) (simp_all add: obj_raw_def without_raw_def keys_empty_def)
  finally show ?thesis .
qed

lemma malformed_obj_raw: "malformed (obj_raw s)"
  by (simp add: obj_raw_def leaf_malformed_def without_raw_def keys_empty_def)

lemma strip_raw_sel:
  "dollar_and (strip_raw n) = map_option (map strip_raw) (dollar_and n)"
  "dollar_or (strip_raw n) = map_option (map strip_raw) (dollar_or n)"
  "dollar_not (strip_raw n) = map_option strip_raw (dollar_not n)"
  by (cases n; simp split: option.splits)+

lemma strip_raw_leaf: "\<not> has_combinator n \<Longrightarrow> strip_raw n = without_raw n"
  by (cases n) (simp add: has_combinator_def without_raw_def)

lemma raw_has_company_sel:
  assumes "raw_has_company n"
  shows "rawDriveQuery n = None \<or> \<not> keys_empty (without_raw n)"
    and "dollar_and n = Some xs \<Longrightarrow> \<forall>x \<in> set xs. raw_has_company x"
    and "dollar_or n = Some xs \<Longrightarrow> \<forall>x \<in> set xs. raw_has_company x"
    and "dollar_not n = Some x \<Longrightarrow> raw_has_company x"
  using assms by (cases n; simp add: without_raw_def)+

lemma keys_empty_strip_raw:
  assumes "raw_has_company n"
  shows "keys_empty (strip_raw n) = keys_empty n"
proof -
  have "keys_empty (strip_raw n) = keys_empty (without_raw n)"
    by (cases n) (simp add: keys_empty_def without_raw_def split: option.splits)
  moreover have "keys_empty (without_raw n) = keys_empty n"
    using raw_has_company_sel(1) [OF assms]
    by (auto simp: keys_empty_def without_raw_def)
  ultimately show ?thesis by simp
qed

lemma wrap_cong:
  fixes x y :: "error + 'a" and f :: "'a \<Rightarrow> error + 'b"
  assumes "\<And>r. x = Inr r \<longleftrightarrow> y = Inr r"
  shows "(case x of Inl e \<Rightarrow> Inl e | Inr v \<Rightarrow> f v) = Inr r
     \<longleftrightarrow> (case y of Inl e \<Rightarrow> Inl e | Inr v \<Rightarrow> f v) = Inr r"
  using assms by (cases rule: Inr_iff_cases) simp_all

lemma emit_leaf_without_raw:
  assumes "rawDriveQuery n = None \<or> \<not> keys_empty (without_raw n)"
  shows "emit_leaf n st = Inr r \<longleftrightarrow> emit_leaf (without_raw n) st = Inr r"
proof (cases "rawDriveQuery n = None")
  case True
  then have "without_raw n = n" by (cases n) (simp add: without_raw_def)
  then show ?thesis by simp
next
  case False
  with assms have "same_conditions n (without_raw n)" by (simp add: same_conditions_without_raw)
  then show ?thesis by (rule emit_leaf_cong)
qed

lemma emit_strip_raw:
  "raw_has_company n \<Longrightarrow> \<forall>r. emit n st = Inr r \<longleftrightarrow> emit (strip_raw n) st = Inr r"
  "\<forall>x \<in> set xs. raw_has_company x \<Longrightarrow>
     \<forall>r. emit_list xs st = Inr r \<longleftrightarrow> emit_list (map strip_raw xs) st = Inr r"
proof (induction n st and xs st rule: emit_emit_list.induct)
  case (1 a b c nm mt ft pid sr sw tr mo ow raw st)
  let ?n = "DriveQueryObject a b c nm mt ft pid sr sw tr mo ow raw"
  show ?case
  proof (cases a)
    case (Some xs)
    with "1.prems" have "\<forall>x \<in> set xs. raw_has_company x" by simp
    with Some have "\<forall>r. emit_list xs st = Inr r \<longleftrightarrow> emit_list (map strip_raw xs) st = Inr r"
      by (rule "1.IH")
    then have "\<And>r. (case emit_list xs st of Inl e \<Rightarrow> Inl e
                  | Inr (ss, st') \<Rightarrow> Inr (p (join (lit '' and '') ss), st')) = Inr r
             \<longleftrightarrow> (case emit_list (map strip_raw xs) st of Inl e \<Rightarrow> Inl e
                  | Inr (ss, st') \<Rightarrow> Inr (p (join (lit '' and '') ss), st')) = Inr r"
      by (intro wrap_cong) blast
    with Some show ?thesis by simp
  next
    case na: None
    show ?thesis
    proof (cases b)
      case (Some xs)
      with "1.prems" have "\<forall>x \<in> set xs. raw_has_company x" by simp
      with na Some
      have "\<forall>r. emit_list xs st = Inr r \<longleftrightarrow> emit_list (map strip_raw xs) st = Inr r"
        by (rule "1.IH")
      then have "\<And>r. (case emit_list xs st of Inl e \<Rightarrow> Inl e
                    | Inr (ss, st') \<Rightarrow> Inr (p (join (lit '' or '') ss), st')) = Inr r
               \<longleftrightarrow> (case emit_list (map strip_raw xs) st of Inl e \<Rightarrow> Inl e
                    | Inr (ss, st') \<Rightarrow> Inr (p (join (lit '' or '') ss), st')) = Inr r"
        by (intro wrap_cong) blast
      with na Some show ?thesis by simp
    next
      case nb: None
      show ?thesis
      proof (cases c)
        case (Some x)
        with "1.prems" have "raw_has_company x" by simp
        with na nb Some have "\<forall>r. emit x st = Inr r \<longleftrightarrow> emit (strip_raw x) st = Inr r"
          by (rule "1.IH")
        then have "\<And>r. (case emit x st of Inl e \<Rightarrow> Inl e
                      | Inr (s, st') \<Rightarrow> Inr (lit ''not '' @ s, st')) = Inr r
                 \<longleftrightarrow> (case emit (strip_raw x) st of Inl e \<Rightarrow> Inl e
                      | Inr (s, st') \<Rightarrow> Inr (lit ''not '' @ s, st')) = Inr r"
          by (intro wrap_cong) blast
        with na nb Some show ?thesis by simp
      next
        case None
        with na nb have nc: "\<not> has_combinator ?n" by (simp add: has_combinator_def)
        have e1: "emit ?n st = emit_leaf ?n st" using nc by (rule emit_no_combinator)
        have "\<not> has_combinator (without_raw ?n)"
          using nc by (simp add: has_combinator_def without_raw_def)
        then have e2: "emit (strip_raw ?n) st = emit_leaf (without_raw ?n) st"
          unfolding strip_raw_leaf [OF nc] by (rule emit_no_combinator)
        from raw_has_company_sel(1) [OF "1.prems"]
        have "\<And>r. emit_leaf ?n st = Inr r \<longleftrightarrow> emit_leaf (without_raw ?n) st = Inr r"
          by (rule emit_leaf_without_raw)
        then show ?thesis unfolding e1 e2 by simp
      qed
    qed
  qed
next
  case (2 st)
  then show ?case by simp
next
  case (3 x xs st)
  from "3.prems" have cx: "raw_has_company x" and cxs: "\<forall>y \<in> set xs. raw_has_company y"
    by simp_all
  from cx have "\<forall>r. emit x st = Inr r \<longleftrightarrow> emit (strip_raw x) st = Inr r" by (rule "3.IH")
  then have h: "\<And>r. emit x st = Inr r \<longleftrightarrow> emit (strip_raw x) st = Inr r" by blast
  from h show ?case
  proof (cases rule: Inr_iff_cases)
    case (fail e e')
    then show ?thesis by simp
  next
    case (ok v)
    obtain s1 st1 where v: "v = (s1, st1)" by (cases v)
    from ok v have a: "emit x st = Inr (s1, st1)" by simp
    have "\<forall>r. emit_list xs st1 = Inr r \<longleftrightarrow> emit_list (map strip_raw xs) st1 = Inr r"
      using a refl cxs by (rule "3.IH")
    then have "\<And>r. (case emit_list xs st1 of Inl e \<Rightarrow> Inl e
                  | Inr (ss, st2) \<Rightarrow> Inr (s1 # ss, st2)) = Inr r
             \<longleftrightarrow> (case emit_list (map strip_raw xs) st1 of Inl e \<Rightarrow> Inl e
                  | Inr (ss, st2) \<Rightarrow> Inr (s1 # ss, st2)) = Inr r"
      by (intro wrap_cong) blast
    with ok v show ?thesis by simp
  qed
qed

lemma emitTop_strip_raw:
  assumes "raw_has_company n"
  shows "emitTop n st = Inr r \<longleftrightarrow> emitTop (strip_raw n) st = Inr r"
proof (cases "keys_empty n")
  case True
  with keys_empty_strip_raw [OF assms] show ?thesis by (simp add: emitTop_def)
next
  case ne: False
  with keys_empty_strip_raw [OF assms] have ne': "\<not> keys_empty (strip_raw n)" by simp
  show ?thesis
  proof (cases "dollar_and n")
    case (Some xs)
    from emit_strip_raw(2) [OF raw_has_company_sel(2) [OF assms Some], of st]
    have "(case emit_list xs st of Inl e \<Rightarrow> Inl e
            | Inr (ss, st') \<Rightarrow> Inr (join (lit '' and '') ss, st')) = Inr r
          \<longleftrightarrow> (case emit_list (map strip_raw xs) st of Inl e \<Rightarrow> Inl e
            | Inr (ss, st') \<Rightarrow> Inr (join (lit '' and '') ss, st')) = Inr r"
      by (intro wrap_cong) blast
    with Some ne ne' show ?thesis by (simp add: emitTop_def strip_raw_sel)
  next
    case na: None
    show ?thesis
    proof (cases "dollar_or n")
      case (Some xs)
      from emit_strip_raw(2) [OF raw_has_company_sel(3) [OF assms Some], of st]
      have "(case emit_list xs st of Inl e \<Rightarrow> Inl e
              | Inr (ss, st') \<Rightarrow> Inr (join (lit '' or '') ss, st')) = Inr r
            \<longleftrightarrow> (case emit_list (map strip_raw xs) st of Inl e \<Rightarrow> Inl e
              | Inr (ss, st') \<Rightarrow> Inr (join (lit '' or '') ss, st')) = Inr r"
        by (intro wrap_cong) blast
      with na Some ne ne' show ?thesis by (simp add: emitTop_def strip_raw_sel)
    next
      case nb: None
      show ?thesis
      proof (cases "dollar_not n")
        case (Some x)
        from emit_strip_raw(1) [OF raw_has_company_sel(4) [OF assms Some], of st]
        have "(case emit x st of Inl e \<Rightarrow> Inl e
                | Inr (s, st') \<Rightarrow> Inr (lit ''not '' @ s, st')) = Inr r
              \<longleftrightarrow> (case emit (strip_raw x) st of Inl e \<Rightarrow> Inl e
                | Inr (s, st') \<Rightarrow> Inr (lit ''not '' @ s, st')) = Inr r"
          by (intro wrap_cong) blast
        with na nb Some ne ne' show ?thesis by (simp add: emitTop_def strip_raw_sel)
      next
        case None
        from emit_strip_raw(1) [OF assms, of st]
        have "(case emit n st of Inl e \<Rightarrow> Inl e
                | Inr (result, st') \<Rightarrow> Inr (if trim result = [] then [] else result, st')) = Inr r
              \<longleftrightarrow> (case emit (strip_raw n) st of Inl e \<Rightarrow> Inl e
                | Inr (result, st') \<Rightarrow> Inr (if trim result = [] then [] else result, st')) = Inr r"
          by (intro wrap_cong) blast
        with na nb None ne ne' show ?thesis by (simp add: emitTop_def strip_raw_sel)
      qed
    qed
  qed
qed

lemma toDriveQuery_strip_raw:
  assumes "raw_has_company n"
  shows "toDriveQuery (QObject n) = Inr r \<longleftrightarrow> toDriveQuery (QObject (strip_raw n)) = Inr r"
proof -
  have "\<And>r. emitTop n init_locals = Inr r \<longleftrightarrow> emitTop (strip_raw n) init_locals = Inr r"
    using assms by (rule emitTop_strip_raw)
  then show ?thesis unfolding toDriveQuery_def by (simp only: DriveQuery.case, intro wrap_cong)
qed

section \<open>C1: a combinator and leaf conditions in one node\<close>

text \<open>
  C1 as stated (a node with a combinator and leaf conditions yields both results, ANDed)
  fails: in the node \<^verbatim>\<open>{$and: [{name: "a"}], starred: true}\<close> the flag appears neither in
  the query string nor in the filters.
\<close>

theorem combinator_and_leaf_counterexample:
  "toDriveQuery (QObject (DriveQueryObject (Some [obj_name (FString (lit ''a''))]) None None
       None None None None (Some True) None None None None None)) =
     Inr (lit ''name contains 'a'' @ [squote],
          no_filters\<lparr>filters_nameIncludes := Some [lit ''a'']\<rparr>)"
  by (simp add: ev)

text \<open>
  C1, amended: a node that carries a combinator compiles, nested and at the root, exactly as
  the same node without its leaf conditions: the first of \<^verbatim>\<open>$and\<close>, \<^verbatim>\<open>$or\<close>, \<^verbatim>\<open>$not\<close>
  returns, and the leaf conditions contribute neither to the query string nor to the filters.
\<close>

theorem combinator_ignores_leaves:
  assumes "has_combinator n"
  shows "emit n st = emit (drop_leaves n) st
       \<and> toDriveQuery (QObject n) = toDriveQuery (QObject (drop_leaves n))"
  using assms
  by (simp add: emit_drop_leaves [symmetric] emitTop_drop_leaves [symmetric] toDriveQuery_def)

theorem combinator_ignores_leaves_witness:
  "has_combinator (DriveQueryObject (Some [obj_name (FString (lit ''a''))]) None None
       None None None None (Some True) None None None None None)
   \<and> toDriveQuery (QObject (DriveQueryObject (Some [obj_name (FString (lit ''a''))]) None None
       None None None None (Some True) None None None None None)) =
     toDriveQuery (QObject (obj_and [obj_name (FString (lit ''a''))]))"
proof -
  have h: "has_combinator (DriveQueryObject (Some [obj_name (FString (lit ''a''))]) None None
       None None None None (Some True) None None None None None)"
    by (simp add: has_combinator_def)
  have d: "drop_leaves (DriveQueryObject (Some [obj_name (FString (lit ''a''))]) None None
       None None None None (Some True) None None None None None) =
       obj_and [obj_name (FString (lit ''a''))]"
    by (simp add: drop_leaves_def obj_and_def)
  from combinator_ignores_leaves [OF h, of init_locals] show ?thesis
    unfolding d using h by (rule_tac conjI) (assumption, erule conjunct2)
qed

section \<open>C2: raw strings\<close>

text \<open>
  C2 as stated (a node that contains \<^verbatim>\<open>rawDriveQuery\<close> is emitted as that string) fails:
  \<open>emit\<close> never reads the key. In \<^verbatim>\<open>{$and: [{rawDriveQuery: "x", name: "a"}]}\<close> the raw
  string of the nested node does not reach the query string.
\<close>

theorem raw_node_counterexample:
  "toDriveQuery (QObject (obj_and [DriveQueryObject None None None (Some (FString (lit ''a'')))
       None None None None None None None None (Some (lit ''x''))])) =
     Inr (lit ''name contains 'a'' @ [squote],
          no_filters\<lparr>filters_nameIncludes := Some [lit ''a'']\<rparr>)"
  by (simp add: ev)

text \<open>
  C2, amended: a plain string is returned as it is, with empty filters. The key
  \<^verbatim>\<open>rawDriveQuery\<close> is never emitted, at the root or in a nested node: a node with this key
  alone throws the error of an unknown node, so that a list of children which holds such a
  node does not compile; and a tree in which no node has this key alone returns, nested and
  at the root, what it returns with the key removed from every node.
\<close>

theorem raw_passthrough:
  "toDriveQuery (QString s) = Inr (s, no_filters)
   \<and> emit (obj_raw s) st = Inl (UnknownNode (obj_raw s))
   \<and> toDriveQuery (QObject (obj_raw s)) = Inl (UnknownNode (obj_raw s))
   \<and> (obj_raw s \<in> set xs \<longrightarrow>
        (\<exists>e. emit_list xs st = Inl e)
      \<and> (\<exists>e. toDriveQuery (QObject (obj_and xs)) = Inl e)
      \<and> (\<exists>e. toDriveQuery (QObject (obj_or xs)) = Inl e))
   \<and> (raw_has_company n \<longrightarrow>
        (emit n st = Inr r \<longleftrightarrow> emit (strip_raw n) st = Inr r)
      \<and> (toDriveQuery (QObject n) = Inr r' \<longleftrightarrow> toDriveQuery (QObject (strip_raw n)) = Inr r'))"
proof (intro conjI impI)
  show "toDriveQuery (QString s) = Inr (s, no_filters)" by (simp add: toDriveQuery_def)
  show "emit (obj_raw s) st = Inl (UnknownNode (obj_raw s))" by (rule emit_obj_raw)
  show "toDriveQuery (QObject (obj_raw s)) = Inl (UnknownNode (obj_raw s))"
    by (simp add: toDriveQuery_def emitTop_def emit_leaf_def obj_raw_def keys_empty_def
          fieldKeys_def get_field_def)
next
  assume "obj_raw s \<in> set xs"
  then have m: "\<exists>x \<in> set xs. malformed x" using malformed_obj_raw by blast
  then show "\<exists>e. emit_list xs st = Inl e" by (rule emit_malformed(2))
  from m have "malformed (obj_and xs)" by (simp add: obj_and_def)
  then show "\<exists>e. toDriveQuery (QObject (obj_and xs)) = Inl e" by (rule toDriveQuery_malformed)
  from m have "malformed (obj_or xs)" by (simp add: obj_or_def)
  then show "\<exists>e. toDriveQuery (QObject (obj_or xs)) = Inl e" by (rule toDriveQuery_malformed)
next
  assume c: "raw_has_company n"
  from emit_strip_raw(1) [OF c, of st]
  show "emit n st = Inr r \<longleftrightarrow> emit (strip_raw n) st = Inr r" by blast
  from c show "toDriveQuery (QObject n) = Inr r' \<longleftrightarrow> toDriveQuery (QObject (strip_raw n)) = Inr r'"
    by (rule toDriveQuery_strip_raw)
qed

theorem raw_passthrough_witness:
  "obj_raw (lit ''x'') \<in> set [obj_starred True, obj_raw (lit ''x'')]
   \<and> (\<exists>e. toDriveQuery (QObject (obj_and [obj_starred True, obj_raw (lit ''x'')])) = Inl e)
   \<and> raw_has_company (obj_and [DriveQueryObject None None None (Some (FString (lit ''a'')))
         None None None None None None None None (Some (lit ''x''))])
   \<and> toDriveQuery (QObject (obj_and [DriveQueryObject None None None (Some (FString (lit ''a'')))
         None None None None None None None None (Some (lit ''x''))])) =
     Inr (lit ''name contains 'a'' @ [squote],
          no_filters\<lparr>filters_nameIncludes := Some [lit ''a'']\<rparr>)"
proof -
  let ?xs = "[obj_starred True, obj_raw (lit ''x'')]"
  let ?n = "obj_and [DriveQueryObject None None None (Some (FString (lit ''a'')))
         None None None None None None None None (Some (lit ''x''))]"
  let ?r = "(lit ''name contains 'a'' @ [squote],
          no_filters\<lparr>filters_nameIncludes := Some [lit ''a'']\<rparr>)"
  have h1: "obj_raw (lit ''x'') \<in> set ?xs" by simp
  have h2: "raw_has_company ?n" by (simp add: obj_and_def keys_empty_def)
  have w: "strip_raw ?n = obj_and [obj_name (FString (lit ''a''))]"
    by (simp add: obj_and_def obj_name_def)
  have a: "toDriveQuery (QObject (strip_raw ?n)) = Inr ?r"
    unfolding w by (simp add: ev)
  have r1: "\<exists>e. toDriveQuery (QObject (obj_and ?xs)) = Inl e"
    by (rule raw_passthrough [THEN conjunct2, THEN conjunct2, THEN conjunct2, THEN conjunct1,
          THEN mp, OF h1, THEN conjunct2, THEN conjunct1])
  have "toDriveQuery (QObject ?n) = Inr ?r \<longleftrightarrow> toDriveQuery (QObject (strip_raw ?n)) = Inr ?r"
    by (rule raw_passthrough [THEN conjunct2, THEN conjunct2, THEN conjunct2, THEN conjunct2,
          THEN mp, OF h2, THEN conjunct2])
  from this a have r2: "toDriveQuery (QObject ?n) = Inr ?r" by (rule iffD2)
  from h1 r1 h2 r2 show ?thesis by blast
qed

section \<open>C3: errors\<close>

text \<open>
  C3 as stated (no input of the schema's shape throws) fails: \<^verbatim>\<open>{$not: {rawDriveQuery: "x"}}\<close>
  has the shape of the schema, and \<open>emit\<close>, which knows no raw string, throws the error of an
  unknown node at the nested node.
\<close>

theorem nested_raw_counterexample:
  "toDriveQuery (QObject (obj_not (obj_raw (lit ''x'')))) = Inl (UnknownNode (obj_raw (lit ''x'')))"
  by (simp add: ev)

text \<open>
  C3, amended: compilation returns for every plain string and for every node in which each
  field operator read has one of the keys \<^verbatim>\<open>$any\<close>, \<^verbatim>\<open>$all\<close>, \<^verbatim>\<open>$none\<close> and each
  leaf node visited is the empty object or yields an expression (a flag, a date range, a
  field with a non-blank value). Compilation throws, nested and at the root, for every node
  in which a leaf node visited has a field operator with none of the three keys or has the
  key \<^verbatim>\<open>rawDriveQuery\<close> alone; at such a leaf the error is that of an unknown field operator,
  with an operator without keys, and that of an unknown node, with the node.
\<close>

theorem compile_returns_or_throws:
  "(compilable n \<longrightarrow> (\<exists>r. emit n st = Inr r) \<and> (\<exists>r. toDriveQuery (QObject n) = Inr r))
   \<and> (malformed n \<longrightarrow> (\<exists>e. emit n st = Inl e) \<and> (\<exists>e. toDriveQuery (QObject n) = Inl e))
   \<and> (\<not> has_combinator n \<and> k \<in> set fieldKeys \<and> get_field n k = Some (FOperator op) \<and> \<not> op_known op
        \<longrightarrow> (\<exists>op'. \<not> op_known op' \<and> emit n st = Inl (UnknownFieldOperator op'))
          \<and> (\<exists>op'. \<not> op_known op' \<and> toDriveQuery (QObject n) = Inl (UnknownFieldOperator op')))
   \<and> (rawDriveQuery n \<noteq> None \<and> keys_empty (without_raw n)
        \<longrightarrow> emit n st = Inl (UnknownNode n) \<and> toDriveQuery (QObject n) = Inl (UnknownNode n))
   \<and> (\<exists>r. toDriveQuery (QString s) = Inr r)"
proof (intro conjI impI)
  assume c: "compilable n"
  from c show "\<exists>r. emit n st = Inr r" by (rule emit_total(1))
  from emitTop_total [OF c, of init_locals] show "\<exists>r. toDriveQuery (QObject n) = Inr r"
    by (auto simp: toDriveQuery_def)
next
  assume m: "malformed n"
  from m show "\<exists>e. emit n st = Inl e" by (rule emit_malformed(1))
  from m show "\<exists>e. toDriveQuery (QObject n) = Inl e" by (rule toDriveQuery_malformed)
next
  assume a: "\<not> has_combinator n \<and> k \<in> set fieldKeys \<and> get_field n k = Some (FOperator op) \<and> \<not> op_known op"
  then show "\<exists>op'. \<not> op_known op' \<and> emit n st = Inl (UnknownFieldOperator op')"
    using emit_unknown_operator by blast
  from a show "\<exists>op'. \<not> op_known op' \<and> toDriveQuery (QObject n) = Inl (UnknownFieldOperator op')"
    using toDriveQuery_unknown_operator by blast
next
  assume a: "rawDriveQuery n \<noteq> None \<and> keys_empty (without_raw n)"
  then have nc: "\<not> has_combinator n" by (simp add: raw_only_no_combinator)
  from a have l: "emit_leaf n st' = Inl (UnknownNode n)" for st' by (simp add: raw_only_leaf)
  then show e: "emit n st = Inl (UnknownNode n)" by (simp add: emit_no_combinator [OF nc])
  from a have "\<not> keys_empty n" by (simp add: keys_empty_def)
  then show "toDriveQuery (QObject n) = Inl (UnknownNode n)"
    by (simp add: toDriveQuery_def emitTop_no_combinator [OF nc] emit_no_combinator [OF nc] l)
next
  show "\<exists>r. toDriveQuery (QString s) = Inr r" by (simp add: toDriveQuery_def)
qed

theorem compile_returns_or_throws_witness:
  "compilable (obj_name (FOperator (any_of [lit ''a''])))
   \<and> (\<exists>r. toDriveQuery (QObject (obj_name (FOperator (any_of [lit ''a''])))) = Inr r)
   \<and> malformed (obj_and [obj_starred True, obj_not (obj_name (FOperator
        \<lparr>dollar_any = None, dollar_all = None, dollar_none = None\<rparr>))])
   \<and> (\<exists>e. toDriveQuery (QObject (obj_and [obj_starred True, obj_not (obj_name (FOperator
        \<lparr>dollar_any = None, dollar_all = None, dollar_none = None\<rparr>))])) = Inl e)
   \<and> (\<not> has_combinator
          (obj_name (FOperator \<lparr>dollar_any = None, dollar_all = None, dollar_none = None\<rparr>))
      \<and> lit ''name'' \<in> set fieldKeys
      \<and> get_field (obj_name (FOperator \<lparr>dollar_any = None, dollar_all = None, dollar_none = None\<rparr>))
          (lit ''name'')
          = Some (FOperator \<lparr>dollar_any = None, dollar_all = None, dollar_none = None\<rparr>)
      \<and> \<not> op_known \<lparr>dollar_any = None, dollar_all = None, dollar_none = None\<rparr>)
   \<and> (\<exists>op'. \<not> op_known op' \<and>
         toDriveQuery (QObject
           (obj_name (FOperator \<lparr>dollar_any = None, dollar_all = None, dollar_none = None\<rparr>)))
           = Inl (UnknownFieldOperator op'))
   \<and> (rawDriveQuery (obj_raw (lit ''x'')) \<noteq> None \<and> keys_empty (without_raw (obj_raw (lit ''x''))))
   \<and> emit (obj_raw (lit ''x'')) init_locals = Inl (UnknownNode (obj_raw (lit ''x'')))"
proof -
  let ?n1 = "obj_name (FOperator (any_of [lit ''a'']))"
  let ?e = "\<lparr>dollar_any = None, dollar_all = None, dollar_none = None\<rparr>"
  let ?n2 = "obj_name (FOperator ?e)"
  let ?n3 = "obj_and [obj_starred True, obj_not ?n2]"
  let ?n4 = "obj_raw (lit ''x'')"
  have h1: "compilable ?n1"
    by (simp add: obj_name_def any_of_def leaf_ok_def fieldKeys_def get_field_def normalize_def
          op_known_def leaf_values_def op_values_def trim_def is_space_def lit_def cu_def)
  have h2: "\<not> has_combinator ?n2 \<and> lit ''name'' \<in> set fieldKeys
      \<and> get_field ?n2 (lit ''name'') = Some (FOperator ?e) \<and> \<not> op_known ?e"
    by (simp add: obj_name_def has_combinator_def fieldKeys_def get_field_def op_known_def)
  have h3: "malformed ?n3"
    by (simp add: obj_and_def obj_not_def obj_name_def obj_starred_def leaf_malformed_def
          fieldKeys_def get_field_def normalize_def op_known_def)
  have h4: "rawDriveQuery ?n4 \<noteq> None \<and> keys_empty (without_raw ?n4)"
    by (simp add: obj_raw_def without_raw_def keys_empty_def)
  from compile_returns_or_throws [of ?n1 init_locals, THEN conjunct1] h1
  have r1: "\<exists>r. toDriveQuery (QObject ?n1) = Inr r" by blast
  from compile_returns_or_throws [of ?n3 init_locals, THEN conjunct2, THEN conjunct1] h3
  have r3: "\<exists>e. toDriveQuery (QObject ?n3) = Inl e" by blast
  from compile_returns_or_throws [of ?n2 init_locals "lit ''name''" ?e,
      THEN conjunct2, THEN conjunct2, THEN conjunct1] h2
  have r2: "\<exists>op'. \<not> op_known op' \<and> toDriveQuery (QObject ?n2) = Inl (UnknownFieldOperator op')"
    by blast
  from compile_returns_or_throws [of ?n4 init_locals,
      THEN conjunct2, THEN conjunct2, THEN conjunct2, THEN conjunct1] h4
  have r4: "emit ?n4 init_locals = Inl (UnknownNode ?n4)" by blast
  from h1 r1 h3 r3 h2 r2 h4 r4 show ?thesis by blast
qed

section \<open>C4: the emission of \<^verbatim>\<open>$not\<close>\<close>

text \<open>
  C4 as stated (the child's emission is wrapped in parentheses) fails: nested in an
  \<^verbatim>\<open>$or\<close>, \<^verbatim>\<open>{$not: {name: "a"}}\<close> compiles to \<^verbatim>\<open>not name contains 'a'\<close>.
\<close>

theorem not_parenthesized_counterexample:
  "toDriveQuery (QObject (obj_or [obj_not (obj_name (FString (lit ''a'')))])) =
     Inr (lit ''not name contains 'a'' @ [squote],
          no_filters\<lparr>filters_nameIncludes := Some [lit ''a'']\<rparr>)"
  by (simp add: ev)

text \<open>
  C4, amended: a node whose first combinator is \<^verbatim>\<open>$not\<close> emits \<^verbatim>\<open>not \<close> followed by the
  child's emission as it is; no parenthesis is added, and an error of the child is passed on.
\<close>

theorem not_prefix_without_parens:
  assumes "dollar_and n = None" and "dollar_or n = None" and "dollar_not n = Some c"
  shows "emit n st = (case emit c st of
                        Inl e \<Rightarrow> Inl e
                      | Inr (s, st') \<Rightarrow> Inr (lit ''not '' @ s, st'))"
  using assms by (subst emit_sel) simp

theorem not_prefix_without_parens_witness:
  "emit (obj_not (obj_name (FString (lit ''a'')))) init_locals =
     Inr (lit ''not name contains 'a'' @ [squote],
          init_locals\<lparr>nameIncludes := nameIncludes init_locals @ [lit ''a'']\<rparr>)"
proof -
  have "emit (obj_not (obj_name (FString (lit ''a'')))) init_locals =
          (case emit (obj_name (FString (lit ''a''))) init_locals of
             Inl e \<Rightarrow> Inl e
           | Inr (s, st') \<Rightarrow> Inr (lit ''not '' @ s, st'))"
    by (rule not_prefix_without_parens) (simp_all add: obj_not_def)
  then show ?thesis unfolding emit_name_a by (simp add: lit_def)
qed

section \<open>C5: the root is not parenthesized, a nested node is\<close>

text \<open>
  C5: for a node whose first combinator is \<^verbatim>\<open>$and\<close> or \<^verbatim>\<open>$or\<close> and whose children
  compile to the strings \<open>ss\<close>, \<open>emitTop\<close> returns the join of \<open>ss\<close> and \<open>emit\<close>, which
  compiles every child of a combinator, returns the same join inside one pair of
  parentheses. So the query string of the node at the root is the cleaned join, without
  enclosing parentheses, the query string of the node as the child of an \<^verbatim>\<open>$or\<close> is the
  parenthesized join, and the two differ.
\<close>

theorem root_unwrapped_nested_wrapped:
  assumes "root_children n = Some xs"
      and "emit_list xs st0 = Inr (ss, st)"
  shows "emitTop n st0 = Inr (join (root_sep n) ss, st)
       \<and> emit n st0 = Inr (p (join (root_sep n) ss), st)
       \<and> (st0 = init_locals \<longrightarrow>
            toDriveQuery (QObject n) = Inr (cleanedQuery (join (root_sep n) ss), mk_filters st)
          \<and> toDriveQuery (QObject (obj_or [n])) = Inr (p (join (root_sep n) ss), mk_filters st))
       \<and> cleanedQuery (join (root_sep n) ss) \<noteq> p (join (root_sep n) ss)"
proof -
  from assms(1) have ne: "\<not> keys_empty n"
    by (auto simp: root_children_def keys_empty_def split: option.splits)
  have top: "emitTop n st0 = Inr (join (root_sep n) ss, st)"
    using assms ne by (auto simp: emitTop_def root_children_def root_sep_def split: option.splits)
  have nested: "emit n st0 = Inr (p (join (root_sep n) ss), st)"
    using assms
    by (subst emit_sel) (auto simp: root_children_def root_sep_def split: option.splits)
  have "emitTop (obj_or [n]) st0 = Inr (p (join (root_sep n) ss), st)"
    using nested by (simp add: emitTop_def obj_or_def keys_empty_def)
  then show ?thesis using top nested
    by (auto simp: toDriveQuery_def cleanedQuery_p cleanedQuery_neq_p)
qed

theorem root_unwrapped_nested_wrapped_witness:
  "toDriveQuery (QObject (obj_and [obj_name (FString (lit ''a'')), obj_starred True])) =
     Inr (lit ''name contains 'a' and starred = true'',
          no_filters\<lparr>filters_nameIncludes := Some [lit ''a''], filters_starred := Some True\<rparr>)
   \<and> toDriveQuery (QObject (obj_or [obj_and [obj_name (FString (lit ''a'')), obj_starred True]])) =
     Inr (lit ''(name contains 'a' and starred = true)'',
          no_filters\<lparr>filters_nameIncludes := Some [lit ''a''], filters_starred := Some True\<rparr>)"
proof -
  let ?n = "obj_and [obj_name (FString (lit ''a'')), obj_starred True]"
  let ?ss = "[lit ''name contains 'a'' @ [squote], lit ''starred = true'']"
  let ?st = "init_locals\<lparr>nameIncludes := [lit ''a''], starredFlag := Some True\<rparr>"
  have h1: "root_children ?n = Some [obj_name (FString (lit ''a'')), obj_starred True]"
    by (simp add: root_children_def obj_and_def)
  have h2: "emit_list [obj_name (FString (lit ''a'')), obj_starred True] init_locals = Inr (?ss, ?st)"
    by (simp add: emit_name_a emit_starred_true init_locals_def)
  have f: "mk_filters ?st =
      no_filters\<lparr>filters_nameIncludes := Some [lit ''a''], filters_starred := Some True\<rparr>"
    by (simp add: mk_filters_def no_filters_def init_locals_def opt_list_def)
  have j: "join (root_sep ?n) ?ss = lit ''name contains 'a' and starred = true''"
    by (simp add: root_sep_def obj_and_def lit_def squote_def cu_def)
  have c: "cleanedQuery (lit ''name contains 'a' and starred = true'') =
             lit ''name contains 'a' and starred = true''"
    by (simp add: ev)
  have q: "p (lit ''name contains 'a' and starred = true'') =
             lit ''(name contains 'a' and starred = true)''"
    by (simp add: p_def lit_def)
  from root_unwrapped_nested_wrapped [OF h1 h2] show ?thesis
    unfolding f j c q by blast
qed

section \<open>C6: dangling operators at the ends of the query string\<close>

text \<open>
  C6: the query string of \<^verbatim>\<open>{$and: [{name: "a"}, {}, {}]}\<close> ends with \<^verbatim>\<open> and\<close>: the
  clean-up removes one operator at the end and the join has left two.
\<close>

theorem trailing_and_remains:
  "toDriveQuery (QObject (obj_and [obj_name (FString (lit ''a'')), empty_object, empty_object])) =
     Inr (lit ''name contains 'a'' @ [squote] @ lit '' and'',
          no_filters\<lparr>filters_nameIncludes := Some [lit ''a'']\<rparr>)"
  by (simp add: ev)

section \<open>C7: a field operator with several keys\<close>

text \<open>
  C7 as stated (every present key of \<^verbatim>\<open>$any\<close>, \<^verbatim>\<open>$all\<close>, \<^verbatim>\<open>$none\<close> is processed)
  fails: of \<^verbatim>\<open>{name: {$any: ["a"], $all: ["b"]}}\<close> only \<^verbatim>\<open>$any\<close> is compiled.
\<close>

theorem any_then_all_counterexample:
  "toDriveQuery (QObject (obj_name (FOperator
       \<lparr>dollar_any = Some [lit ''a''], dollar_all = Some [lit ''b''], dollar_none = None\<rparr>))) =
     Inr (lit ''name contains 'a'' @ [squote],
          no_filters\<lparr>filters_nameIncludes := Some [lit ''a'']\<rparr>)"
  by (simp add: ev)

text \<open>
  C7, amended: \<open>fieldExpr\<close> processes the first key that is present, in the order
  \<^verbatim>\<open>$any\<close>, \<^verbatim>\<open>$all\<close>, \<^verbatim>\<open>$none\<close>, and ignores the keys after it: the result, fragment
  and lists, is that of the operator with this key alone.
\<close>

theorem fieldExpr_first_present_only:
  "fieldExpr f \<lparr>dollar_any = Some vs, dollar_all = a, dollar_none = b\<rparr> st = fieldExpr f (any_of vs) st
   \<and> fieldExpr f \<lparr>dollar_any = None, dollar_all = Some vs, dollar_none = b\<rparr> st =
       fieldExpr f (all_of vs) st"
  by (simp add: fieldExpr_def any_of_def all_of_def)

section \<open>C8: the literals in the filters\<close>

text \<open>
  C8: when compilation returns, the list that the filters hold for each of the five fields
  is the list of the literal values compiled into conditions of that field, in the order of
  compilation and with duplicates, also for values under \<^verbatim>\<open>$not\<close> and in \<^verbatim>\<open>$none\<close>; the
  key is absent when the list is empty.
\<close>

theorem literals_recorded:
  assumes "toDriveQuery (QObject n) = Inr (q, flt)"
  shows "filters_nameIncludes flt = opt_list (compiled_values (lit ''name'') n)
       \<and> filters_mimeTypeIncludes flt = opt_list (compiled_values (lit ''mimeType'') n)
       \<and> filters_fullTextIncludes flt = opt_list (compiled_values (lit ''fullText'') n)
       \<and> filters_parentIdIncludes flt = opt_list (compiled_values (lit ''parentId'') n)
       \<and> filters_ownerIncludes flt = opt_list (compiled_values (lit ''owner'') n)"
proof -
  from assms obtain s st where top: "emitTop n init_locals = Inr (s, st)"
    and flt: "flt = mk_filters st"
    by (auto simp: toDriveQuery_def split: sum.splits)
  have inc: "\<And>k. includes_of k st = compiled_values k n"
    using emitTop_includes [OF top] by (simp add: includes_of_init)
  have "nameIncludes st = includes_of (lit ''name'') st"
    "mimeTypeIncludes st = includes_of (lit ''mimeType'') st"
    "fullTextIncludes st = includes_of (lit ''fullText'') st"
    "parentIdIncludes st = includes_of (lit ''parentId'') st"
    "ownerIncludes st = includes_of (lit ''owner'') st"
    using field_names_distinct by (simp_all add: includes_of_def)
  then show ?thesis unfolding inc flt by (simp add: mk_filters_def)
qed


theorem literals_recorded_witness:
  "toDriveQuery (QObject (obj_and [obj_not (obj_name (FString (lit ''x''))),
       obj_name (FOperator (none_of [lit ''y'', lit ''x'']))])) =
     Inr (lit ''not name contains 'x' and not ((name contains 'y' or name contains 'x'))'',
          no_filters\<lparr>filters_nameIncludes := Some [lit ''x'', lit ''y'', lit ''x'']\<rparr>)
   \<and> opt_list (compiled_values (lit ''name'')
        (obj_and [obj_not (obj_name (FString (lit ''x''))),
           obj_name (FOperator (none_of [lit ''y'', lit ''x'']))])) =
      Some [lit ''x'', lit ''y'', lit ''x'']"
proof -
  let ?n = "obj_and [obj_not (obj_name (FString (lit ''x''))),
       obj_name (FOperator (none_of [lit ''y'', lit ''x'']))]"
  let ?q = "lit ''not name contains 'x' and not ((name contains 'y' or name contains 'x'))''"
  let ?f = "no_filters\<lparr>filters_nameIncludes := Some [lit ''x'', lit ''y'', lit ''x'']\<rparr>"
  have a: "toDriveQuery (QObject ?n) = Inr (?q, ?f)"
    by (simp add: none_of_def ev)
  from literals_recorded [OF a]
  have "filters_nameIncludes ?f = opt_list (compiled_values (lit ''name'') ?n)"
    by (rule conjunct1)
  then have "opt_list (compiled_values (lit ''name'') ?n) = Some [lit ''x'', lit ''y'', lit ''x'']"
    by (simp add: no_filters_def)
  with a show ?thesis by (intro conjI)
qed

section \<open>C10: a plain string is a singleton \<^verbatim>\<open>$any\<close>\<close>

text \<open>
  C10: for each of the five leaf fields \<open>k\<close> and every string \<open>v\<close>, a node with \<open>k\<close> set to
  the plain string \<open>v\<close> and the same node with \<open>k\<close> set to \<^verbatim>\<open>{$any: [v]}\<close> return the
  same query string and filters (and one throws when the other does).
\<close>

theorem plain_string_is_singleton_any:
  assumes "k \<in> set fieldKeys"
  shows "toDriveQuery (QObject (set_field k (FString v) n)) = Inr r
     \<longleftrightarrow> toDriveQuery (QObject (set_field k (FOperator (any_of [v])) n)) = Inr r"
  by (rule toDriveQuery_cong, rule same_conditions_set_field [OF assms])
     (simp add: normalize_def any_of_def)

theorem plain_string_is_singleton_any_witness:
  "lit ''name'' \<in> set fieldKeys
   \<and> toDriveQuery (QObject (set_field (lit ''name'') (FString (lit ''a'')) (obj_starred True))) =
       Inr (lit ''(starred = true and name contains 'a')'',
            no_filters\<lparr>filters_nameIncludes := Some [lit ''a''], filters_starred := Some True\<rparr>)
   \<and> toDriveQuery (QObject (set_field (lit ''name'') (FOperator (any_of [lit ''a''])) (obj_starred True))) =
       Inr (lit ''(starred = true and name contains 'a')'',
            no_filters\<lparr>filters_nameIncludes := Some [lit ''a''], filters_starred := Some True\<rparr>)"
proof -
  let ?r = "(lit ''(starred = true and name contains 'a')'',
            no_filters\<lparr>filters_nameIncludes := Some [lit ''a''], filters_starred := Some True\<rparr>)"
  have h: "lit ''name'' \<in> set fieldKeys" by (simp add: fieldKeys_def)
  have a: "toDriveQuery (QObject (set_field (lit ''name'') (FString (lit ''a'')) (obj_starred True)))
             = Inr ?r"
    by (simp add: set_field_def ev)
  from plain_string_is_singleton_any [OF h] a
  have "toDriveQuery (QObject (set_field (lit ''name'') (FOperator (any_of [lit ''a''])) (obj_starred True)))
          = Inr ?r"
    by (rule iffD1)
  with h a show ?thesis by (intro conjI)
qed

end
